theory Spec2Isabelle
  imports Main "HOL-Library.AList"
begin

section \<open>Python dicts in a store\<close>

text \<open>
  The registry of \<^verbatim>\<open>cassandra/registry.py\<close> is a dict of dicts that is mutated in place
  and whose dict objects are handed to other objects by reference
  (\<^verbatim>\<open>cassandra/context.py\<close>). Dict objects therefore live in a store and are named by
  addresses. A dict is the list of its items in insertion order: \<open>map_of\<close> reads a key,
  \<open>AList.update\<close> is the assignment \<^verbatim>\<open>d[k] = v\<close> (an existing key keeps its place, a new
  key goes to the end). There are two kinds of dict objects: the outer ones, from a protocol
  version to an inner dict, and the inner ones, from an opcode to a codec function.
  Protocol versions and opcodes are Python integers. Codec functions are values of
  a type \<open>'f\<close>; two of them are equal when they are the same function.
\<close>

type_synonym addr = nat
type_synonym version = int
type_synonym opcode = int

record 'f store =
  outer_dicts :: "addr \<Rightarrow> (version \<times> addr) list"
  inner_dicts :: "addr \<Rightarrow> (opcode \<times> 'f) list"
  next_addr :: addr

datatype error = KeyError | ValueError string

text \<open>The expression \<^verbatim>\<open>{}\<close>: a new empty dict, at an address not used so far.\<close>

definition new_outer_dict :: "'f store \<Rightarrow> addr \<times> 'f store" where
  "new_outer_dict s =
     (next_addr s,
      s\<lparr>outer_dicts := (outer_dicts s)(next_addr s := []), next_addr := Suc (next_addr s)\<rparr>)"

definition new_inner_dict :: "'f store \<Rightarrow> addr \<times> 'f store" where
  "new_inner_dict s =
     (next_addr s,
      s\<lparr>inner_dicts := (inner_dicts s)(next_addr s := []), next_addr := Suc (next_addr s)\<rparr>)"

text \<open>The subscript \<^verbatim>\<open>d[k]\<close>, which raises KeyError on a missing key.\<close>

definition dict_getitem :: "('k \<times> 'v) list \<Rightarrow> 'k \<Rightarrow> error + 'v" where
  "dict_getitem d k = (case map_of d k of None \<Rightarrow> Inl KeyError | Some v \<Rightarrow> Inr v)"

text \<open>The assignments \<^verbatim>\<open>d[k] = v\<close> on the dict object at an address.\<close>

definition outer_setitem :: "addr \<Rightarrow> version \<Rightarrow> addr \<Rightarrow> 'f store \<Rightarrow> 'f store" where
  "outer_setitem d k a s = s\<lparr>outer_dicts := (outer_dicts s)(d := AList.update k a (outer_dicts s d))\<rparr>"

definition inner_setitem :: "addr \<Rightarrow> opcode \<Rightarrow> 'f \<Rightarrow> 'f store \<Rightarrow> 'f store" where
  "inner_setitem a k f s = s\<lparr>inner_dicts := (inner_dicts s)(a := AList.update k f (inner_dicts s a))\<rparr>"

section \<open>MessageCodecRegistry (cassandra/registry.py)\<close>

record MessageCodecRegistry =
  encoders :: addr
  decoders :: addr

text \<open>\<^verbatim>\<open>__init__\<close>: two new empty dicts.\<close>

definition MessageCodecRegistry_init :: "'f store \<Rightarrow> MessageCodecRegistry \<times> 'f store" where
  "MessageCodecRegistry_init s =
     (case new_outer_dict s of (e, s1) \<Rightarrow>
      case new_outer_dict s1 of (d, s2) \<Rightarrow>
        (\<lparr>encoders = e, decoders = d\<rparr>, s2))"

text \<open>
  \<^verbatim>\<open>_add(self, registry, protocol_version, opcode, func)\<close>. The second statement reads
  \<^verbatim>\<open>registry[protocol_version]\<close> again, a subscript that raises KeyError on a missing key,
  and then stores into the inner dict it finds.
\<close>

definition priv_add :: "addr \<Rightarrow> version \<Rightarrow> opcode \<Rightarrow> 'f \<Rightarrow> 'f store \<Rightarrow> error + 'f store" where
  "priv_add registry protocol_version opcode func s =
     (let s1 = (if protocol_version \<notin> fst ` set (outer_dicts s registry)
                then (case new_inner_dict s of (a, s') \<Rightarrow> outer_setitem registry protocol_version a s')
                else s)
      in case dict_getitem (outer_dicts s1 registry) protocol_version of
           Inl e \<Rightarrow> Inl e
         | Inr a \<Rightarrow> Inr (inner_setitem a opcode func s1))"

text \<open>
  The message of the ValueError that \<^verbatim>\<open>_get\<close> raises:
  \<^verbatim>\<open>"No codec registered for message '{0:02X}' and protocol version '{1}'".format(opcode, protocol_version)\<close>.
  \<^verbatim>\<open>{0:02X}\<close> writes an integer in upper-case hexadecimal, padded with zeros to two
  characters, the sign included; \<^verbatim>\<open>{1}\<close> writes it in decimal.
\<close>

definition digit_char :: "nat \<Rightarrow> char" where
  "digit_char n = ''0123456789ABCDEF'' ! n"

fun digits :: "nat \<Rightarrow> nat \<Rightarrow> string" where
  "digits b n = (if b < 2 \<or> n < b then [digit_char n] else digits b (n div b) @ [digit_char (n mod b)])"

declare digits.simps [simp del]

definition zero_pad :: "nat \<Rightarrow> string \<Rightarrow> string" where
  "zero_pad w ds = replicate (w - length ds) (CHR ''0'') @ ds"

definition format_02X :: "int \<Rightarrow> string" where
  "format_02X i =
     (if i < 0 then CHR ''-'' # zero_pad 1 (digits 16 (nat (- i)))
      else zero_pad 2 (digits 16 (nat i)))"

definition str_int :: "int \<Rightarrow> string" where
  "str_int i = (if i < 0 then CHR ''-'' # digits 10 (nat (- i)) else digits 10 (nat i))"

definition no_codec_message :: "opcode \<Rightarrow> version \<Rightarrow> string" where
  "no_codec_message opcode protocol_version =
     ''No codec registered for message '' @ [CHR 0x27] @ format_02X opcode @ [CHR 0x27] @
     '' and protocol version '' @ [CHR 0x27] @ str_int protocol_version @ [CHR 0x27]"

text \<open>
  \<^verbatim>\<open>_get(self, registry, protocol_version, opcode)\<close>: the two subscripts in a
  \<^verbatim>\<open>try\<close>, and the handler that turns a KeyError into the ValueError.
\<close>

definition priv_get :: "addr \<Rightarrow> version \<Rightarrow> opcode \<Rightarrow> 'f store \<Rightarrow> error + 'f" where
  "priv_get registry protocol_version opcode s =
     (case (case dict_getitem (outer_dicts s registry) protocol_version of
              Inl e \<Rightarrow> Inl e
            | Inr a \<Rightarrow> dict_getitem (inner_dicts s a) opcode) of
        Inl KeyError \<Rightarrow> Inl (ValueError (no_codec_message opcode protocol_version))
      | Inl e \<Rightarrow> Inl e
      | Inr func \<Rightarrow> Inr func)"

definition add_encoder :: "MessageCodecRegistry \<Rightarrow> version \<Rightarrow> opcode \<Rightarrow> 'f \<Rightarrow> 'f store \<Rightarrow> error + 'f store" where
  "add_encoder self protocol_version opcode encoder s =
     priv_add (encoders self) protocol_version opcode encoder s"

definition add_decoder :: "MessageCodecRegistry \<Rightarrow> version \<Rightarrow> opcode \<Rightarrow> 'f \<Rightarrow> 'f store \<Rightarrow> error + 'f store" where
  "add_decoder self protocol_version opcode decoder s =
     priv_add (decoders self) protocol_version opcode decoder s"

definition get_encoder :: "MessageCodecRegistry \<Rightarrow> version \<Rightarrow> opcode \<Rightarrow> 'f store \<Rightarrow> error + 'f" where
  "get_encoder self protocol_version opcode s =
     priv_get (encoders self) protocol_version opcode s"

definition get_decoder :: "MessageCodecRegistry \<Rightarrow> version \<Rightarrow> opcode \<Rightarrow> 'f store \<Rightarrow> error + 'f" where
  "get_decoder self protocol_version opcode s =
     priv_get (decoders self) protocol_version opcode s"

text \<open>
  The function registered for a (version, opcode) pair in the dict of dicts at an address,
  if there is one: the two subscripts \<^verbatim>\<open>d[version][opcode]\<close> without the exception.
\<close>

definition entry :: "'f store \<Rightarrow> addr \<Rightarrow> version \<Rightarrow> opcode \<Rightarrow> 'f option" where
  "entry s d v oc =
     (case map_of (outer_dicts s d) v of None \<Rightarrow> None | Some a \<Rightarrow> map_of (inner_dicts s a) oc)"

text \<open>The keys of an outer dict, in iteration order.\<close>

definition versions_of :: "'f store \<Rightarrow> addr \<Rightarrow> version list" where
  "versions_of s d = map fst (outer_dicts s d)"

subsection \<open>Sequences of registrations\<close>

text \<open>
  A client of the registry makes any sequence of \<^verbatim>\<open>add_encoder\<close> and
  \<^verbatim>\<open>add_decoder\<close> calls; an exception ends the sequence.
\<close>

datatype 'f registration = AddEncoder version opcode 'f | AddDecoder version opcode 'f

fun register :: "MessageCodecRegistry \<Rightarrow> 'f registration \<Rightarrow> 'f store \<Rightarrow> error + 'f store" where
  "register r (AddEncoder v oc f) s = add_encoder r v oc f s"
| "register r (AddDecoder v oc f) s = add_decoder r v oc f s"

fun register_all :: "MessageCodecRegistry \<Rightarrow> 'f registration list \<Rightarrow> 'f store \<Rightarrow> error + 'f store" where
  "register_all r [] s = Inr s"
| "register_all r (c # cs) s =
     (case register r c s of Inl e \<Rightarrow> Inl e | Inr s' \<Rightarrow> register_all r cs s')"

text \<open>The function of the most recent registration of an encoder (a decoder) for a pair.\<close>

fun latest_encoder :: "'f registration list \<Rightarrow> version \<Rightarrow> opcode \<Rightarrow> 'f option" where
  "latest_encoder [] v oc = None"
| "latest_encoder (AddEncoder v' oc' f # cs) v oc =
     (case latest_encoder cs v oc of
        Some g \<Rightarrow> Some g
      | None \<Rightarrow> if v' = v \<and> oc' = oc then Some f else None)"
| "latest_encoder (AddDecoder v' oc' f # cs) v oc = latest_encoder cs v oc"

fun latest_decoder :: "'f registration list \<Rightarrow> version \<Rightarrow> opcode \<Rightarrow> 'f option" where
  "latest_decoder [] v oc = None"
| "latest_decoder (AddDecoder v' oc' f # cs) v oc =
     (case latest_decoder cs v oc of
        Some g \<Rightarrow> Some g
      | None \<Rightarrow> if v' = v \<and> oc' = oc then Some f else None)"
| "latest_decoder (AddEncoder v' oc' f # cs) v oc = latest_decoder cs v oc"

section \<open>The default registry (cassandra/context.py)\<close>

text \<open>
  The message classes come from \<^verbatim>\<open>cassandra.protocol\<close>, which is imported and not part of
  the code at hand. What the build reads from them is an \<^verbatim>\<open>opcode\<close> and an
  \<^verbatim>\<open>encode\<close> or \<^verbatim>\<open>decode\<close> function per class, and an \<^verbatim>\<open>error_code\<close> per error
  class. The classes are the constructors below; the numbers are parameters of the build,
  collected in a record, so that every result holds for any assignment of opcodes and
  error codes.
\<close>

datatype message_class =
  StartupMessage | RegisterMessage | BatchMessage | QueryMessage | ExecuteMessage
  | PrepareMessage | OptionsMessage | AuthResponseMessage

datatype error_class =
  UnavailableErrorMessage | ReadTimeoutErrorMessage | WriteTimeoutErrorMessage
  | IsBootstrappingErrorMessage | OverloadedErrorMessage | UnauthorizedErrorMessage
  | ServerError | ProtocolException | BadCredentials | TruncateError | ReadFailureMessage
  | FunctionFailureMessage | WriteFailureMessage | CDCWriteException | SyntaxException
  | InvalidRequestException | ConfigurationException | PreparedQueryNotFound
  | AlreadyExistsException

datatype codec_class =
  ReadyMessage | EventMessage_Codec | ResultMessage_Codec | AuthenticateMessage
  | AuthSuccessMessage | AuthChallengeMessage | SupportedMessage | ErrorMessage_Codec

text \<open>
  The function values that get registered: \<^verbatim>\<open>message.encode\<close>, \<^verbatim>\<open>codec.decode\<close> of a
  codec class, \<^verbatim>\<open>e.decode\<close> of an error class, the \<^verbatim>\<open>decode\<close> of an instance
  \<^verbatim>\<open>ErrorMessage.Codec(error_decoders)\<close>, and the two decode functions of the test
  module. Two values are equal when they are the same function of the same class; the
  \<^verbatim>\<open>decode\<close> of an error codec is identified by the dispatch list of its instance.
\<close>

datatype fn =
  encode message_class
  | decode codec_class
  | error_decode error_class
  | ErrorMessage_Codec_decode "(int \<times> fn) list"
  | CustomResultMessageRaw_Codec_decode
  | CustomResultMessageTracked_Codec_decode

text \<open>
  Modelled from the spec: the class \<^verbatim>\<open>ErrorMessage.Codec\<close> of \<^verbatim>\<open>cassandra.protocol\<close>, of
  which the code at hand has only the call of the constructor with the list of
  \<^verbatim>\<open>(error_code, decode)\<close> pairs. The spec: the generic error decoder "reads the embedded
  ErrorCode from the payload and forwards to the specific variant decoder", through "a private
  lookup internal to the error decoder, keyed only by ErrorCode, independent of protocol
  version". An instance is its dispatch list, which is the list it is constructed with. The
  codecs that the build goes through are codec classes and one such instance.
\<close>

datatype codec = Class codec_class | ErrorMessage_Codec_instance "(int \<times> fn) list"

record protocol_module =
  message_opcode :: "message_class \<Rightarrow> opcode"
  codec_opcode :: "codec_class \<Rightarrow> opcode"
  error_code :: "error_class \<Rightarrow> int"
  CustomResultMessageRaw_opcode :: opcode
  CustomResultMessageTracked_opcode :: opcode

fun opcode_of :: "protocol_module \<Rightarrow> codec \<Rightarrow> opcode" where
  "opcode_of P (Class c) = codec_opcode P c"
| "opcode_of P (ErrorMessage_Codec_instance t) = codec_opcode P ErrorMessage_Codec"

fun decode_of :: "codec \<Rightarrow> fn" where
  "decode_of (Class c) = decode c"
| "decode_of (ErrorMessage_Codec_instance t) = ErrorMessage_Codec_decode t"

text \<open>
  Modelled from the spec: the values of \<^verbatim>\<open>ProtocolVersion.V3\<close>, \<^verbatim>\<open>V4\<close> and \<^verbatim>\<open>V5\<close>,
  defined in the \<^verbatim>\<open>cassandra\<close> package; the spec has a protocol version as a small
  ordered integer identifying the protocol revision (e.g. 3, 4, 5).
\<close>

definition V3 :: version where "V3 = 3"
definition V4 :: version where "V4 = 4"
definition V5 :: version where "V5 = 5"

definition protocol_versions :: "version list" where
  "protocol_versions = [V3, V4, V5]"

definition outbound_messages :: "message_class list" where
  "outbound_messages =
     [StartupMessage, RegisterMessage, BatchMessage, QueryMessage, ExecuteMessage,
      PrepareMessage, OptionsMessage, AuthResponseMessage]"

definition error_classes :: "error_class list" where
  "error_classes =
     [UnavailableErrorMessage, ReadTimeoutErrorMessage, WriteTimeoutErrorMessage,
      IsBootstrappingErrorMessage, OverloadedErrorMessage, UnauthorizedErrorMessage,
      ServerError, ProtocolException, BadCredentials, TruncateError, ReadFailureMessage,
      FunctionFailureMessage, WriteFailureMessage, CDCWriteException, SyntaxException,
      InvalidRequestException, ConfigurationException, PreparedQueryNotFound,
      AlreadyExistsException]"

definition error_decoders :: "protocol_module \<Rightarrow> (int \<times> fn) list" where
  "error_decoders P = map (\<lambda>e. (error_code P e, error_decode e)) error_classes"

definition inbound_codecs :: "protocol_module \<Rightarrow> codec list" where
  "inbound_codecs P =
     [Class ReadyMessage, Class EventMessage_Codec, Class ResultMessage_Codec,
      Class AuthenticateMessage, Class AuthSuccessMessage, Class AuthChallengeMessage,
      Class SupportedMessage, ErrorMessage_Codec_instance (error_decoders P)]"

text \<open>
  The two inner \<^verbatim>\<open>for\<close> statements of \<^verbatim>\<open>_build_message_codec_registry\<close>, and the outer one
  over the versions.
\<close>

fun add_encoders ::
  "protocol_module \<Rightarrow> MessageCodecRegistry \<Rightarrow> version \<Rightarrow> message_class list \<Rightarrow> fn store \<Rightarrow> error + fn store" where
  "add_encoders P registry v [] s = Inr s"
| "add_encoders P registry v (message # ms) s =
     (case add_encoder registry v (message_opcode P message) (encode message) s of
        Inl e \<Rightarrow> Inl e
      | Inr s' \<Rightarrow> add_encoders P registry v ms s')"

fun add_decoders ::
  "protocol_module \<Rightarrow> MessageCodecRegistry \<Rightarrow> version \<Rightarrow> codec list \<Rightarrow> fn store \<Rightarrow> error + fn store" where
  "add_decoders P registry v [] s = Inr s"
| "add_decoders P registry v (codec # cs) s =
     (case add_decoder registry v (opcode_of P codec) (decode_of codec) s of
        Inl e \<Rightarrow> Inl e
      | Inr s' \<Rightarrow> add_decoders P registry v cs s')"

fun build_versions ::
  "protocol_module \<Rightarrow> MessageCodecRegistry \<Rightarrow> version list \<Rightarrow> fn store \<Rightarrow> error + fn store" where
  "build_versions P registry [] s = Inr s"
| "build_versions P registry (v # vs) s =
     (case add_encoders P registry v outbound_messages s of
        Inl e \<Rightarrow> Inl e
      | Inr s1 \<Rightarrow>
          (case add_decoders P registry v (inbound_codecs P) s1 of
             Inl e \<Rightarrow> Inl e
           | Inr s2 \<Rightarrow> build_versions P registry vs s2))"

definition build_message_codec_registry ::
  "protocol_module \<Rightarrow> fn store \<Rightarrow> error + (MessageCodecRegistry \<times> fn store)" where
  "build_message_codec_registry P s =
     (case MessageCodecRegistry_init s of (registry, s1) \<Rightarrow>
      case build_versions P registry protocol_versions s1 of
        Inl e \<Rightarrow> Inl e
      | Inr s2 \<Rightarrow> Inr (registry, s2))"

section \<open>Copies of dicts\<close>

text \<open>
  \<^verbatim>\<open>copy.deepcopy\<close> of a dict of dicts of functions. It makes a new outer dict and
  stores, under every key of the source in turn, the copy of the inner dict found there.
  Its memo maps every inner dict copied so far to its copy, so that an inner dict that
  occurs twice in the source is copied once. The copy of an inner dict is a new dict with
  the same items in the same order: the copy of an integer or of a function value is an
  equal value (which object in memory holds a function value is not part of a value of
  type \<open>'f\<close>).
\<close>

definition copy_inner_dict :: "addr \<Rightarrow> 'f store \<Rightarrow> addr \<times> 'f store" where
  "copy_inner_dict x s =
     (case new_inner_dict s of (y, s1) \<Rightarrow>
        (y, s1\<lparr>inner_dicts := (inner_dicts s1)(y := inner_dicts s1 x)\<rparr>))"

fun deepcopy_items ::
  "(version \<times> addr) list \<Rightarrow> addr \<Rightarrow> (addr \<times> addr) list \<Rightarrow> 'f store \<Rightarrow> (addr \<times> addr) list \<times> 'f store" where
  "deepcopy_items [] y memo s = (memo, s)"
| "deepcopy_items ((k, a) # items) y memo s =
     (case map_of memo a of
        Some b \<Rightarrow> deepcopy_items items y memo (outer_setitem y k b s)
      | None \<Rightarrow>
          (case copy_inner_dict a s of (b, s1) \<Rightarrow>
             deepcopy_items items y (AList.update a b memo) (outer_setitem y k b s1)))"

definition deepcopy :: "addr \<Rightarrow> 'f store \<Rightarrow> addr \<times> 'f store" where
  "deepcopy x s =
     (case new_outer_dict s of (y, s1) \<Rightarrow> (y, snd (deepcopy_items (outer_dicts s1 x) y [] s1)))"

section \<open>ProtocolHandler\<close>

text \<open>
  Modelled from the spec: the class \<^verbatim>\<open>ProtocolHandler\<close> (and its base
  \<^verbatim>\<open>_ProtocolHandler\<close>) of \<^verbatim>\<open>cassandra.protocol\<close>, of which the code at hand has only
  the calls of the constructor. The spec: a ProtocolHandler "owns its own snapshot of
  encoder/decoder maps; once built, the snapshot is not a live view of any registry it was
  built from", and its encode and decode are "pure lookups into the handler's own snapshot
  maps followed by invocation". The constructor takes the snapshot as a copy of both maps;
  the lookups give the function that encode or decode goes on to invoke, if there is one.
\<close>

record ProtocolHandler =
  handler_encoders :: addr
  handler_decoders :: addr

definition ProtocolHandler_init :: "addr \<Rightarrow> addr \<Rightarrow> 'f store \<Rightarrow> ProtocolHandler \<times> 'f store" where
  "ProtocolHandler_init encoders_arg decoders_arg s =
     (case deepcopy encoders_arg s of (e, s1) \<Rightarrow>
      case deepcopy decoders_arg s1 of (d, s2) \<Rightarrow>
        (\<lparr>handler_encoders = e, handler_decoders = d\<rparr>, s2))"

definition handler_encoder :: "ProtocolHandler \<Rightarrow> version \<Rightarrow> opcode \<Rightarrow> 'f store \<Rightarrow> 'f option" where
  "handler_encoder self v oc s = entry s (handler_encoders self) v oc"

definition handler_decoder :: "ProtocolHandler \<Rightarrow> version \<Rightarrow> opcode \<Rightarrow> 'f store \<Rightarrow> 'f option" where
  "handler_decoder self v oc s = entry s (handler_decoders self) v oc"

section \<open>DriverContext (cassandra/context.py)\<close>

text \<open>
  The two attributes start as \<^verbatim>\<open>None\<close>; each property fills its attribute on first use
  and returns the attribute from then on. A property returns its value, the context and
  the store.
\<close>

record DriverContext =
  priv_message_codec_registry :: "MessageCodecRegistry option"
  priv_protocol_handler :: "ProtocolHandler option"

definition DriverContext_new :: DriverContext where
  "DriverContext_new = \<lparr>priv_message_codec_registry = None, priv_protocol_handler = None\<rparr>"

definition message_codec_registry ::
  "protocol_module \<Rightarrow> DriverContext \<Rightarrow> fn store \<Rightarrow> error + (MessageCodecRegistry \<times> DriverContext \<times> fn store)" where
  "message_codec_registry P self s =
     (case priv_message_codec_registry self of
        None \<Rightarrow>
          (case build_message_codec_registry P s of
             Inl e \<Rightarrow> Inl e
           | Inr (r, s') \<Rightarrow> Inr (r, self\<lparr>priv_message_codec_registry := Some r\<rparr>, s'))
      | Some r \<Rightarrow> Inr (r, self, s))"

definition protocol_handler ::
  "protocol_module \<Rightarrow> DriverContext \<Rightarrow> fn store \<Rightarrow> error + (ProtocolHandler \<times> DriverContext \<times> fn store)" where
  "protocol_handler P self s =
     (case priv_protocol_handler self of
        None \<Rightarrow>
          (case message_codec_registry P self s of
             Inl e \<Rightarrow> Inl e
           | Inr (r1, self1, s1) \<Rightarrow>
               (case message_codec_registry P self1 s1 of
                  Inl e \<Rightarrow> Inl e
                | Inr (r2, self2, s2) \<Rightarrow>
                    (case ProtocolHandler_init (encoders r1) (decoders r2) s2 of
                       (h, s3) \<Rightarrow> Inr (h, self2\<lparr>priv_protocol_handler := Some h\<rparr>, s3))))
      | Some h \<Rightarrow> Inr (h, self, s))"

section \<open>The handlers of the test module (tests/integration/standard/test_custom_protocol_handler.py)\<close>

text \<open>
  The loop \<^verbatim>\<open>for version in decoders: decoders[version][opcode] = func\<close>, over the keys
  the dict has when the loop starts.
\<close>

fun patch_decoders :: "addr \<Rightarrow> opcode \<Rightarrow> 'f \<Rightarrow> version list \<Rightarrow> 'f store \<Rightarrow> error + 'f store" where
  "patch_decoders decoders_arg oc func [] s = Inr s"
| "patch_decoders decoders_arg oc func (version # vs) s =
     (case dict_getitem (outer_dicts s decoders_arg) version of
        Inl e \<Rightarrow> Inl e
      | Inr a \<Rightarrow> patch_decoders decoders_arg oc func vs (inner_setitem a oc func s))"

definition CustomTestRawRowType_init ::
  "protocol_module \<Rightarrow> addr \<Rightarrow> addr \<Rightarrow> fn store \<Rightarrow> error + (ProtocolHandler \<times> fn store)" where
  "CustomTestRawRowType_init P encoders_arg decoders_arg s =
     (case deepcopy decoders_arg s of (decoders', s1) \<Rightarrow>
      case patch_decoders decoders' (CustomResultMessageRaw_opcode P)
             CustomResultMessageRaw_Codec_decode (versions_of s1 decoders') s1 of
        Inl e \<Rightarrow> Inl e
      | Inr s2 \<Rightarrow> Inr (ProtocolHandler_init encoders_arg decoders' s2))"

definition CustomProtocolHandlerResultMessageTracked_init ::
  "protocol_module \<Rightarrow> addr \<Rightarrow> addr \<Rightarrow> fn store \<Rightarrow> error + (ProtocolHandler \<times> fn store)" where
  "CustomProtocolHandlerResultMessageTracked_init P encoders_arg decoders_arg s =
     (case deepcopy decoders_arg s of (decoders', s1) \<Rightarrow>
      case patch_decoders decoders' (CustomResultMessageTracked_opcode P)
             CustomResultMessageTracked_Codec_decode (versions_of s1 decoders') s1 of
        Inl e \<Rightarrow> Inl e
      | Inr s2 \<Rightarrow> Inr (ProtocolHandler_init encoders_arg decoders' s2))"

section \<open>Notions for the statements and the proofs\<close>

subsection \<open>Dicts of dicts that share nothing\<close>

text \<open>
  The inner dicts an outer dict refers to, and the condition under which a set of outer
  dicts is a set of separate dicts of dicts: every dict is allocated, the keys of an outer
  dict are distinct, and no inner dict is referred to twice, neither under two versions nor
  from two outer dicts.
\<close>

definition inner_refs :: "'f store \<Rightarrow> addr \<Rightarrow> addr set" where
  "inner_refs s d = snd ` set (outer_dicts s d)"

definition separate :: "'f store \<Rightarrow> addr set \<Rightarrow> bool" where
  "separate s D \<longleftrightarrow>
     (\<forall>d\<in>D. d < next_addr s \<and> distinct (map fst (outer_dicts s d)) \<and>
        distinct (map snd (outer_dicts s d)) \<and> (\<forall>a\<in>inner_refs s d. a < next_addr s)) \<and>
     (\<forall>d\<in>D. \<forall>d'\<in>D. d \<noteq> d' \<longrightarrow> inner_refs s d \<inter> inner_refs s d' = {})"

subsection \<open>Calls that return\<close>

text \<open>
  A call returns a value that satisfies a condition: it raises no exception, and the
  condition holds of what it returns.
\<close>

definition returns :: "error + 'a \<Rightarrow> ('a \<Rightarrow> bool) \<Rightarrow> bool" where
  "returns m Q = (case m of Inl e \<Rightarrow> False | Inr x \<Rightarrow> Q x)"

text \<open>The store before anything is allocated.\<close>

definition empty_store :: "'f store" where
  "empty_store = \<lparr>outer_dicts = (\<lambda>a. []), inner_dicts = (\<lambda>a. []), next_addr = 0\<rparr>"

text \<open>A store in which the dict at address 0 has version 4 only, with opcode 7 only.\<close>

definition example_store :: "nat store" where
  "example_store =
     \<lparr>outer_dicts = (\<lambda>a. [])(0 := [(4, 2)]), inner_dicts = (\<lambda>a. [])(2 := [(7, 10)]), next_addr = 3\<rparr>"

subsection \<open>Reading the numbers of a message back\<close>

text \<open>
  The value of a string of digits in a base, and of a string with an optional sign. They
  invert the two number formats of the message, which is how the message determines the
  opcode and the version it was made from.
\<close>

definition digit_value :: "char \<Rightarrow> nat" where
  "digit_value c = length (takeWhile (\<lambda>d. d \<noteq> c) ''0123456789ABCDEF'')"

definition undigits :: "nat \<Rightarrow> string \<Rightarrow> nat" where
  "undigits b ds = foldl (\<lambda>n c. n * b + digit_value c) 0 ds"

definition parse_int :: "nat \<Rightarrow> string \<Rightarrow> int" where
  "parse_int b ds =
     (case ds of [] \<Rightarrow> 0
      | c # cs \<Rightarrow> if c = CHR ''-'' then - int (undigits b cs) else int (undigits b ds))"


subsection \<open>The default registrations, and example numbers\<close>

text \<open>
  The registrations that the build makes for one version, in the order of its two inner
  \<^verbatim>\<open>for\<close> statements, and for all versions; and the dict that a version ends up with:
  the items of such a statement read from the last to the first, so that a later item wins
  an opcode.
\<close>

definition encoder_registrations :: "protocol_module \<Rightarrow> version \<Rightarrow> fn registration list" where
  "encoder_registrations P v = map (\<lambda>m. AddEncoder v (message_opcode P m) (encode m)) outbound_messages"

definition decoder_registrations :: "protocol_module \<Rightarrow> version \<Rightarrow> fn registration list" where
  "decoder_registrations P v = map (\<lambda>c. AddDecoder v (opcode_of P c) (decode_of c)) (inbound_codecs P)"

definition default_registrations :: "protocol_module \<Rightarrow> fn registration list" where
  "default_registrations P =
     concat (map (\<lambda>v. encoder_registrations P v @ decoder_registrations P v) protocol_versions)"

definition default_encoders :: "protocol_module \<Rightarrow> opcode \<Rightarrow> fn option" where
  "default_encoders P = map_of (rev (map (\<lambda>m. (message_opcode P m, encode m)) outbound_messages))"

definition default_decoders :: "protocol_module \<Rightarrow> opcode \<Rightarrow> fn option" where
  "default_decoders P = map_of (rev (map (\<lambda>c. (opcode_of P c, decode_of c)) (inbound_codecs P)))"

text \<open>The version that a registration adds to the encoders (the decoders), if any.\<close>

fun encoder_version :: "'f registration \<Rightarrow> version set" where
  "encoder_version (AddEncoder v oc f) = {v}"
| "encoder_version (AddDecoder v oc f) = {}"

fun decoder_version :: "'f registration \<Rightarrow> version set" where
  "decoder_version (AddEncoder v oc f) = {}"
| "decoder_version (AddDecoder v oc f) = {v}"

text \<open>
  An assignment of the opcodes and error codes, for examples: the numbers of the CQL binary
  protocol. The result opcode of the two test message classes is that of
  \<^verbatim>\<open>ResultMessage\<close>, which they inherit.
\<close>

fun cql_message_opcode :: "message_class \<Rightarrow> opcode" where
  "cql_message_opcode StartupMessage = 0x01"
| "cql_message_opcode OptionsMessage = 0x05"
| "cql_message_opcode QueryMessage = 0x07"
| "cql_message_opcode PrepareMessage = 0x09"
| "cql_message_opcode ExecuteMessage = 0x0A"
| "cql_message_opcode RegisterMessage = 0x0B"
| "cql_message_opcode BatchMessage = 0x0D"
| "cql_message_opcode AuthResponseMessage = 0x0F"

fun cql_codec_opcode :: "codec_class \<Rightarrow> opcode" where
  "cql_codec_opcode ErrorMessage_Codec = 0x00"
| "cql_codec_opcode ReadyMessage = 0x02"
| "cql_codec_opcode AuthenticateMessage = 0x03"
| "cql_codec_opcode SupportedMessage = 0x06"
| "cql_codec_opcode ResultMessage_Codec = 0x08"
| "cql_codec_opcode EventMessage_Codec = 0x0C"
| "cql_codec_opcode AuthChallengeMessage = 0x0E"
| "cql_codec_opcode AuthSuccessMessage = 0x10"

fun cql_error_code :: "error_class \<Rightarrow> int" where
  "cql_error_code ServerError = 0x0000"
| "cql_error_code ProtocolException = 0x000A"
| "cql_error_code BadCredentials = 0x0100"
| "cql_error_code UnavailableErrorMessage = 0x1000"
| "cql_error_code OverloadedErrorMessage = 0x1001"
| "cql_error_code IsBootstrappingErrorMessage = 0x1002"
| "cql_error_code TruncateError = 0x1003"
| "cql_error_code WriteTimeoutErrorMessage = 0x1100"
| "cql_error_code ReadTimeoutErrorMessage = 0x1200"
| "cql_error_code ReadFailureMessage = 0x1300"
| "cql_error_code FunctionFailureMessage = 0x1400"
| "cql_error_code WriteFailureMessage = 0x1500"
| "cql_error_code CDCWriteException = 0x1600"
| "cql_error_code SyntaxException = 0x2000"
| "cql_error_code UnauthorizedErrorMessage = 0x2100"
| "cql_error_code InvalidRequestException = 0x2200"
| "cql_error_code ConfigurationException = 0x2300"
| "cql_error_code AlreadyExistsException = 0x2400"
| "cql_error_code PreparedQueryNotFound = 0x2500"

definition cql_protocol :: protocol_module where
  "cql_protocol =
     \<lparr>message_opcode = cql_message_opcode, codec_opcode = cql_codec_opcode,
      error_code = cql_error_code, CustomResultMessageRaw_opcode = 0x08,
      CustomResultMessageTracked_opcode = 0x08\<rparr>"

text \<open>
  Modelled from the spec: the dispatch list inside the \<^verbatim>\<open>decode\<close> of an
  \<^verbatim>\<open>ErrorMessage.Codec\<close> instance, the "private lookup internal to the error decoder, keyed
  only by ErrorCode"; and the number of its entries for the error decoder that the default
  registry has for a version.
\<close>

fun dispatch_table :: "fn \<Rightarrow> (int \<times> fn) list" where
  "dispatch_table (ErrorMessage_Codec_decode t) = t"
| "dispatch_table f = []"

definition error_dispatch_size :: "protocol_module \<Rightarrow> fn store \<Rightarrow> version \<Rightarrow> error + nat" where
  "error_dispatch_size P s v =
     (case build_message_codec_registry P s of
        Inl e \<Rightarrow> Inl e
      | Inr (r, s') \<Rightarrow>
          (case get_decoder r v (codec_opcode P ErrorMessage_Codec) s' of
             Inl e \<Rightarrow> Inl e
           | Inr f \<Rightarrow> Inr (length (dispatch_table f))))"

section \<open>Properties of the store operations\<close>

lemma priv_add_returns: "\<exists>s'. priv_add d v oc f s = Inr s'"
  by (simp add: priv_add_def Let_def dict_getitem_def new_inner_dict_def outer_setitem_def
      update_conv' map_of_eq_None_iff [symmetric] split: option.splits)

lemma update_absent: "map_of al k = None \<Longrightarrow> AList.update k v al = al @ [(k, v)]"
  by (induction al) (auto split: if_splits)

lemma map_of_distinct_snd:
  "distinct (map snd xs) \<Longrightarrow> map_of xs k = Some a \<Longrightarrow> map_of xs k' = Some a \<Longrightarrow> k = k'"
proof (induction xs)
  case Nil
  then show ?case by simp
next
  case (Cons x xs)
  obtain k0 a0 where x: "x = (k0, a0)" by (cases x)
  have notin: "\<And>j. map_of xs j = Some a0 \<Longrightarrow> False"
    using Cons.prems(1) x by (force dest: map_of_SomeD)
  show ?case
    using Cons x notin by (auto split: if_splits)
qed

lemma map_of_in_refs: "map_of (outer_dicts s d) v = Some a \<Longrightarrow> a \<in> inner_refs s d"
  unfolding inner_refs_def by (force dest: map_of_SomeD)

lemma priv_add_old:
  assumes "map_of (outer_dicts s d) v = Some a"
  shows "priv_add d v oc f s = Inr (inner_setitem a oc f s)"
  using assms
  by (simp add: priv_add_def Let_def dict_getitem_def map_of_eq_None_iff [symmetric])

lemma priv_add_new:
  assumes "map_of (outer_dicts s d) v = None"
  shows "priv_add d v oc f s =
    Inr (s\<lparr>outer_dicts := (outer_dicts s)(d := outer_dicts s d @ [(v, next_addr s)]),
           inner_dicts := (inner_dicts s)(next_addr s := [(oc, f)]),
           next_addr := Suc (next_addr s)\<rparr>)"
  using assms
  by (simp add: priv_add_def Let_def dict_getitem_def new_inner_dict_def outer_setitem_def inner_setitem_def
      map_of_eq_None_iff [symmetric] update_absent map_add_def)


lemma separate_refs_lt:
  "separate s D \<Longrightarrow> d \<in> D \<Longrightarrow> map_of (outer_dicts s d) v = Some a \<Longrightarrow> a < next_addr s"
proof -
  assume a: "separate s D" "d \<in> D" "map_of (outer_dicts s d) v = Some a"
  have "a \<in> inner_refs s d" using a(3) by (rule map_of_in_refs)
  moreover have "\<forall>a\<in>inner_refs s d. a < next_addr s"
    using a(1,2) by (simp add: separate_def)
  ultimately show ?thesis by simp
qed

lemma separate_unique:
  assumes "separate s D" "d \<in> D" "d' \<in> D"
    and "map_of (outer_dicts s d) v = Some a" "map_of (outer_dicts s d') v' = Some a"
  shows "d' = d \<and> v' = v"
proof -
  have in1: "a \<in> inner_refs s d" and in2: "a \<in> inner_refs s d'"
    using assms(4,5) by (auto intro: map_of_in_refs)
  have deq: "d' = d"
  proof (rule ccontr)
    assume "d' \<noteq> d"
    then have "inner_refs s d \<inter> inner_refs s d' = {}"
      using assms(1-3) by (simp add: separate_def)
    with in1 in2 show False by blast
  qed
  moreover have "distinct (map snd (outer_dicts s d))"
    using assms(1,2) by (simp add: separate_def)
  ultimately show ?thesis
    using assms(4,5) map_of_distinct_snd [of "outer_dicts s d" v a v'] by simp
qed

lemma separate_cong:
  "separate s D \<Longrightarrow> outer_dicts s' = outer_dicts s \<Longrightarrow> next_addr s' = next_addr s \<Longrightarrow> separate s' D"
  unfolding separate_def inner_refs_def by simp

lemma entry_inner_setitem:
  assumes "separate s D" "d \<in> D" "d' \<in> D" "map_of (outer_dicts s d) v = Some a"
  shows "entry (inner_setitem a oc f s) d' v' oc' =
         (if d' = d \<and> v' = v \<and> oc' = oc then Some f else entry s d' v' oc')"
proof (cases "map_of (outer_dicts s d') v'")
  case None
  then show ?thesis using assms(4) by (auto simp: entry_def inner_setitem_def)
next
  case (Some a')
  show ?thesis
  proof (cases "a' = a")
    case True
    then have "d' = d \<and> v' = v"
      using separate_unique [OF assms(1-3) assms(4)] Some by blast
    then show ?thesis
      using assms(4) by (simp add: entry_def inner_setitem_def update_conv')
  next
    case False
    then have "\<not> (d' = d \<and> v' = v)" using Some assms(4) by auto
    then show ?thesis
      using Some False by (auto simp: entry_def inner_setitem_def)
  qed
qed


lemma separate_extend:
  assumes sep: "separate s D" and d: "d \<in> D" and new: "map_of (outer_dicts s d) v = None"
    and o: "outer_dicts s' = (outer_dicts s)(d := outer_dicts s d @ [(v, next_addr s)])"
    and n: "next_addr s' = Suc (next_addr s)"
  shows "separate s' D"
proof -
  have lt: "\<And>e a. e \<in> D \<Longrightarrow> a \<in> inner_refs s e \<Longrightarrow> a < next_addr s"
    using sep by (simp add: separate_def)
  have fresh: "\<And>e. e \<in> D \<Longrightarrow> next_addr s \<notin> inner_refs s e"
    using lt by blast
  have refs: "\<And>e. inner_refs s' e = (if e = d then insert (next_addr s) (inner_refs s d) else inner_refs s e)"
    by (auto simp: inner_refs_def o)
  have vnew: "v \<notin> fst ` set (outer_dicts s d)"
    using new by (simp add: map_of_eq_None_iff)
  have one: "e < next_addr s' \<and> distinct (map fst (outer_dicts s' e)) \<and>
        distinct (map snd (outer_dicts s' e)) \<and> (\<forall>a\<in>inner_refs s' e. a < next_addr s')"
    if e: "e \<in> D" for e
  proof -
    have old: "e < next_addr s" "distinct (map fst (outer_dicts s e))"
      "distinct (map snd (outer_dicts s e))"
      using sep e by (simp_all add: separate_def)
    have "\<forall>a\<in>inner_refs s' e. a < next_addr s'"
      using lt [OF e] lt [OF d] by (auto simp: refs n less_Suc_eq)
    moreover have "distinct (map fst (outer_dicts s' e))"
      using old(2) vnew by (auto simp: o)
    moreover have "distinct (map snd (outer_dicts s' e))"
      using old(3) fresh [OF d] by (auto simp: o inner_refs_def)
    ultimately show ?thesis using old(1) by (simp add: n)
  qed
  have two: "inner_refs s' e \<inter> inner_refs s' e' = {}" if "e \<in> D" "e' \<in> D" "e \<noteq> e'" for e e'
  proof -
    have "inner_refs s e \<inter> inner_refs s e' = {}"
      using sep that by (simp add: separate_def)
    then show ?thesis
      using fresh [OF that(1)] fresh [OF that(2)] that(3) by (auto simp: refs)
  qed
  show ?thesis
    unfolding separate_def using one two by blast
qed

lemma entry_extend:
  assumes sep: "separate s D" and d: "d \<in> D" and e: "e \<in> D"
    and new: "map_of (outer_dicts s d) v = None"
    and o: "outer_dicts s' = (outer_dicts s)(d := outer_dicts s d @ [(v, next_addr s)])"
    and i: "inner_dicts s' = (inner_dicts s)(next_addr s := [(oc, f)])"
  shows "entry s' e v' oc' = (if e = d \<and> v' = v \<and> oc' = oc then Some f else entry s e v' oc')"
proof (cases "e = d \<and> v' = v")
  case True
  then show ?thesis using new by (simp add: entry_def o i map_add_def)
next
  case False
  have same: "map_of (outer_dicts s' e) v' = map_of (outer_dicts s e) v'"
    using False by (auto simp: o map_add_def split: option.splits)
  show ?thesis
  proof (cases "map_of (outer_dicts s e) v'")
    case None
    then show ?thesis using False same by (auto simp: entry_def)
  next
    case (Some a)
    then have "a \<noteq> next_addr s"
      using separate_refs_lt [OF sep e Some] by simp
    then show ?thesis using False same Some by (auto simp: entry_def i)
  qed
qed

lemma map_of_Some_key: "map_of xs k = Some a \<Longrightarrow> k \<in> fst ` set xs"
  using map_of_eq_None_iff [of xs k] by simp

lemma priv_add_effect:
  assumes sep: "separate s D" and d: "d \<in> D" and run: "priv_add d v oc f s = Inr s'"
  shows "separate s' D"
    and "\<And>e v' oc'. e \<in> D \<Longrightarrow>
           entry s' e v' oc' = (if e = d \<and> v' = v \<and> oc' = oc then Some f else entry s e v' oc')"
    and "next_addr s \<le> next_addr s'"
    and "\<And>e. e \<noteq> d \<Longrightarrow> outer_dicts s' e = outer_dicts s e"
    and "set (versions_of s' d) = insert v (set (versions_of s d))"
proof -
  show "separate s' D"
  proof (cases "map_of (outer_dicts s d) v")
    case None
    have "s' = s\<lparr>outer_dicts := (outer_dicts s)(d := outer_dicts s d @ [(v, next_addr s)]),
           inner_dicts := (inner_dicts s)(next_addr s := [(oc, f)]),
           next_addr := Suc (next_addr s)\<rparr>"
      using run by (simp add: priv_add_new [OF None])
    then show ?thesis
      by (intro separate_extend [OF sep d None]) simp_all
  next
    case (Some a)
    show ?thesis
      using run separate_cong [OF sep, of s'] by (auto simp: priv_add_old [OF Some] inner_setitem_def)
  qed
  show "entry s' e v' oc' = (if e = d \<and> v' = v \<and> oc' = oc then Some f else entry s e v' oc')"
    if e: "e \<in> D" for e v' oc'
  proof (cases "map_of (outer_dicts s d) v")
    case None
    have "s' = s\<lparr>outer_dicts := (outer_dicts s)(d := outer_dicts s d @ [(v, next_addr s)]),
           inner_dicts := (inner_dicts s)(next_addr s := [(oc, f)]),
           next_addr := Suc (next_addr s)\<rparr>"
      using run by (simp add: priv_add_new [OF None])
    then show ?thesis
      by (intro entry_extend [OF sep d e None]) simp_all
  next
    case (Some a)
    show ?thesis
      using run entry_inner_setitem [OF sep d e Some] by (auto simp: priv_add_old [OF Some])
  qed
  show "next_addr s \<le> next_addr s'"
    using run by (cases "map_of (outer_dicts s d) v")
      (auto simp: priv_add_new priv_add_old inner_setitem_def)
  show "outer_dicts s' e = outer_dicts s e" if "e \<noteq> d" for e
    using run that by (cases "map_of (outer_dicts s d) v")
      (auto simp: priv_add_new priv_add_old inner_setitem_def)
  show "set (versions_of s' d) = insert v (set (versions_of s d))"
    using run by (cases "map_of (outer_dicts s d) v")
      (auto simp: priv_add_new priv_add_old inner_setitem_def versions_of_def
        dest: map_of_Some_key)
qed


lemma priv_get_entry:
  "priv_get d v oc s =
     (case entry s d v oc of Some f \<Rightarrow> Inr f | None \<Rightarrow> Inl (ValueError (no_codec_message oc v)))"
  by (simp add: priv_get_def entry_def dict_getitem_def split: option.splits)

lemma separate_new_outer:
  assumes "separate s D"
  shows "separate (snd (new_outer_dict s)) (insert (next_addr s) D)"
proof -
  let ?s = "snd (new_outer_dict s)"
  have o: "\<And>e. e \<in> D \<Longrightarrow> outer_dicts ?s e = outer_dicts s e"
    using assms by (auto simp: separate_def new_outer_dict_def)
  have n: "outer_dicts ?s (next_addr s) = []" "next_addr ?s = Suc (next_addr s)"
    by (simp_all add: new_outer_dict_def)
  have r: "\<And>e. e \<in> D \<Longrightarrow> inner_refs ?s e = inner_refs s e"
    by (simp add: inner_refs_def o)
  have r0: "inner_refs ?s (next_addr s) = {}"
    by (simp add: inner_refs_def n)
  have one: "e < next_addr ?s \<and> distinct (map fst (outer_dicts ?s e)) \<and>
        distinct (map snd (outer_dicts ?s e)) \<and> (\<forall>a\<in>inner_refs ?s e. a < next_addr ?s)"
    if e: "e \<in> insert (next_addr s) D" for e
  proof (cases "e \<in> D")
    case True
    have "e < next_addr s" "distinct (map fst (outer_dicts s e))"
      "distinct (map snd (outer_dicts s e))" "\<forall>a\<in>inner_refs s e. a < next_addr s"
      using assms True by (simp_all add: separate_def)
    then show ?thesis using True by (auto simp: o r n less_Suc_eq)
  next
    case False
    then have "e = next_addr s" using e by simp
    then show ?thesis by (simp add: n r0)
  qed
  have two: "inner_refs ?s e \<inter> inner_refs ?s e' = {}"
    if "e \<in> insert (next_addr s) D" "e' \<in> insert (next_addr s) D" "e \<noteq> e'" for e e'
  proof (cases "e \<in> D \<and> e' \<in> D")
    case True
    then have "inner_refs s e \<inter> inner_refs s e' = {}"
      using assms that(3) by (simp add: separate_def)
    then show ?thesis using True by (simp add: r)
  next
    case False
    then have "e = next_addr s \<or> e' = next_addr s" using that by auto
    then show ?thesis by (auto simp: r0)
  qed
  show ?thesis
    unfolding separate_def using one two by blast
qed

lemma entry_new_outer:
  assumes "e < next_addr s"
  shows "entry (snd (new_outer_dict s)) e v oc = entry s e v oc"
    and "versions_of (snd (new_outer_dict s)) e = versions_of s e"
  using assms by (simp_all add: entry_def versions_of_def new_outer_dict_def split: option.splits)

lemma entry_new_outer_fresh:
  "entry (snd (new_outer_dict s)) (next_addr s) v oc = None"
  "versions_of (snd (new_outer_dict s)) (next_addr s) = []"
  by (simp_all add: entry_def versions_of_def new_outer_dict_def)

lemma separate_lt: "separate s D \<Longrightarrow> e \<in> D \<Longrightarrow> e < next_addr s"
  by (simp add: separate_def)

lemma separate_subset: "separate s D \<Longrightarrow> E \<subseteq> D \<Longrightarrow> separate s E"
  unfolding separate_def by (meson subsetD)

lemma separate_empty: "separate s {}"
  by (simp add: separate_def)

lemma init_effect:
  assumes sep: "separate s D" and init: "MessageCodecRegistry_init s = (r, s')"
  shows "separate s' (insert (encoders r) (insert (decoders r) D))"
    and "encoders r \<noteq> decoders r" and "encoders r \<notin> D" and "decoders r \<notin> D"
    and "\<And>v oc. entry s' (encoders r) v oc = None" and "\<And>v oc. entry s' (decoders r) v oc = None"
    and "versions_of s' (encoders r) = []" and "versions_of s' (decoders r) = []"
    and "\<And>e v oc. e \<in> D \<Longrightarrow> entry s' e v oc = entry s e v oc"
    and "\<And>e. e \<in> D \<Longrightarrow> versions_of s' e = versions_of s e"
    and "next_addr s \<le> next_addr s'"
proof -
  let ?s1 = "snd (new_outer_dict s)"
  let ?s2 = "snd (new_outer_dict ?s1)"
  have r: "encoders r = next_addr s" "decoders r = Suc (next_addr s)" and s': "s' = ?s2"
    using init by (auto simp: MessageCodecRegistry_init_def new_outer_dict_def split: prod.splits)
  have n1: "next_addr ?s1 = Suc (next_addr s)" by (simp add: new_outer_dict_def)
  have sep1: "separate ?s1 (insert (next_addr s) D)"
    using sep by (rule separate_new_outer)
  have "separate ?s2 (insert (next_addr ?s1) (insert (next_addr s) D))"
    using sep1 by (rule separate_new_outer)
  then show "separate s' (insert (encoders r) (insert (decoders r) D))"
    by (simp add: r s' n1 insert_commute)
  show "encoders r \<noteq> decoders r" by (simp add: r)
  show "encoders r \<notin> D" "decoders r \<notin> D"
    using separate_lt [OF sep, of "next_addr s"] separate_lt [OF sep, of "Suc (next_addr s)"]
    by (auto simp: r)
  show "entry s' (encoders r) v oc = None" for v oc
    using entry_new_outer(1) [of "next_addr s" ?s1 v oc] entry_new_outer_fresh(1) [of s v oc]
    by (simp add: r s' n1)
  show "entry s' (decoders r) v oc = None" for v oc
    using entry_new_outer_fresh(1) [of ?s1 v oc] by (simp add: r s' n1)
  show "versions_of s' (encoders r) = []"
    using entry_new_outer(2) [of "next_addr s" ?s1] entry_new_outer_fresh(2) [of s]
    by (simp add: r s' n1)
  show "versions_of s' (decoders r) = []"
    using entry_new_outer_fresh(2) [of ?s1] by (simp add: r s' n1)
  show "entry s' e v oc = entry s e v oc" if "e \<in> D" for e v oc
    using separate_lt [OF sep that] by (simp add: s' entry_new_outer n1)
  show "versions_of s' e = versions_of s e" if "e \<in> D" for e
    using separate_lt [OF sep that] by (simp add: s' entry_new_outer n1)
  show "next_addr s \<le> next_addr s'" by (simp add: s' n1 new_outer_dict_def)
qed


lemma register_effect:
  assumes sep: "separate s D" and e: "encoders r \<in> D" and d: "decoders r \<in> D"
    and ne: "encoders r \<noteq> decoders r"
  shows "\<exists>s'. register r c s = Inr s' \<and> separate s' D \<and> next_addr s \<le> next_addr s' \<and>
     (\<forall>v oc. entry s' (encoders r) v oc =
        (case latest_encoder [c] v oc of Some f \<Rightarrow> Some f | None \<Rightarrow> entry s (encoders r) v oc)) \<and>
     (\<forall>v oc. entry s' (decoders r) v oc =
        (case latest_decoder [c] v oc of Some f \<Rightarrow> Some f | None \<Rightarrow> entry s (decoders r) v oc)) \<and>
     (\<forall>x\<in>D. x \<noteq> encoders r \<longrightarrow> x \<noteq> decoders r \<longrightarrow>
        (\<forall>v oc. entry s' x v oc = entry s x v oc) \<and> versions_of s' x = versions_of s x)"
proof (cases c)
  case (AddEncoder v oc f)
  obtain s' where run: "priv_add (encoders r) v oc f s = Inr s'"
    using priv_add_returns [of "encoders r" v oc f s] by blast
  note eff = priv_add_effect [OF sep e run]
  have "\<forall>x\<in>D. x \<noteq> encoders r \<longrightarrow> x \<noteq> decoders r \<longrightarrow>
        (\<forall>v oc. entry s' x v oc = entry s x v oc) \<and> versions_of s' x = versions_of s x"
    using eff(2,4) by (simp add: versions_of_def)
  moreover have "\<forall>v' oc'. entry s' (encoders r) v' oc' =
        (case latest_encoder [c] v' oc' of Some f \<Rightarrow> Some f | None \<Rightarrow> entry s (encoders r) v' oc')"
    using eff(2) [OF e] by (simp add: AddEncoder)
  moreover have "\<forall>v' oc'. entry s' (decoders r) v' oc' =
        (case latest_decoder [c] v' oc' of Some f \<Rightarrow> Some f | None \<Rightarrow> entry s (decoders r) v' oc')"
    using eff(2) [OF d] ne by (simp add: AddEncoder)
  ultimately show ?thesis
    using run eff(1,3) by (simp add: AddEncoder add_encoder_def)
next
  case (AddDecoder v oc f)
  obtain s' where run: "priv_add (decoders r) v oc f s = Inr s'"
    using priv_add_returns [of "decoders r" v oc f s] by blast
  note eff = priv_add_effect [OF sep d run]
  have "\<forall>x\<in>D. x \<noteq> encoders r \<longrightarrow> x \<noteq> decoders r \<longrightarrow>
        (\<forall>v oc. entry s' x v oc = entry s x v oc) \<and> versions_of s' x = versions_of s x"
    using eff(2,4) by (simp add: versions_of_def)
  moreover have "\<forall>v' oc'. entry s' (decoders r) v' oc' =
        (case latest_decoder [c] v' oc' of Some f \<Rightarrow> Some f | None \<Rightarrow> entry s (decoders r) v' oc')"
    using eff(2) [OF d] by (simp add: AddDecoder)
  moreover have "\<forall>v' oc'. entry s' (encoders r) v' oc' =
        (case latest_encoder [c] v' oc' of Some f \<Rightarrow> Some f | None \<Rightarrow> entry s (encoders r) v' oc')"
    using eff(2) [OF e] ne by (simp add: AddDecoder)
  ultimately show ?thesis
    using run eff(1,3) by (simp add: AddDecoder add_decoder_def)
qed

lemma latest_encoder_Cons:
  "latest_encoder (c # cs) v oc =
     (case latest_encoder cs v oc of Some g \<Rightarrow> Some g | None \<Rightarrow> latest_encoder [c] v oc)"
  by (cases c) (simp_all split: option.splits)

lemma latest_decoder_Cons:
  "latest_decoder (c # cs) v oc =
     (case latest_decoder cs v oc of Some g \<Rightarrow> Some g | None \<Rightarrow> latest_decoder [c] v oc)"
  by (cases c) (simp_all split: option.splits)

lemma register_all_effect:
  assumes sep: "separate s D" and e: "encoders r \<in> D" and d: "decoders r \<in> D"
    and ne: "encoders r \<noteq> decoders r"
  shows "\<exists>s'. register_all r cs s = Inr s' \<and> separate s' D \<and> next_addr s \<le> next_addr s' \<and>
     (\<forall>v oc. entry s' (encoders r) v oc =
        (case latest_encoder cs v oc of Some f \<Rightarrow> Some f | None \<Rightarrow> entry s (encoders r) v oc)) \<and>
     (\<forall>v oc. entry s' (decoders r) v oc =
        (case latest_decoder cs v oc of Some f \<Rightarrow> Some f | None \<Rightarrow> entry s (decoders r) v oc)) \<and>
     (\<forall>x\<in>D. x \<noteq> encoders r \<longrightarrow> x \<noteq> decoders r \<longrightarrow>
        (\<forall>v oc. entry s' x v oc = entry s x v oc) \<and> versions_of s' x = versions_of s x)"
  using sep
proof (induction cs arbitrary: s)
  case Nil
  then show ?case by simp
next
  case (Cons c cs)
  obtain s1 where 1: "register r c s = Inr s1" "separate s1 D" "next_addr s \<le> next_addr s1"
    "\<forall>v oc. entry s1 (encoders r) v oc =
        (case latest_encoder [c] v oc of Some f \<Rightarrow> Some f | None \<Rightarrow> entry s (encoders r) v oc)"
    "\<forall>v oc. entry s1 (decoders r) v oc =
        (case latest_decoder [c] v oc of Some f \<Rightarrow> Some f | None \<Rightarrow> entry s (decoders r) v oc)"
    "\<forall>x\<in>D. x \<noteq> encoders r \<longrightarrow> x \<noteq> decoders r \<longrightarrow>
        (\<forall>v oc. entry s1 x v oc = entry s x v oc) \<and> versions_of s1 x = versions_of s x"
    using register_effect [OF Cons.prems e d ne, of c] by blast
  obtain s2 where 2: "register_all r cs s1 = Inr s2" "separate s2 D" "next_addr s1 \<le> next_addr s2"
    "\<forall>v oc. entry s2 (encoders r) v oc =
        (case latest_encoder cs v oc of Some f \<Rightarrow> Some f | None \<Rightarrow> entry s1 (encoders r) v oc)"
    "\<forall>v oc. entry s2 (decoders r) v oc =
        (case latest_decoder cs v oc of Some f \<Rightarrow> Some f | None \<Rightarrow> entry s1 (decoders r) v oc)"
    "\<forall>x\<in>D. x \<noteq> encoders r \<longrightarrow> x \<noteq> decoders r \<longrightarrow>
        (\<forall>v oc. entry s2 x v oc = entry s1 x v oc) \<and> versions_of s2 x = versions_of s1 x"
    using Cons.IH [OF 1(2)] by blast
  have run: "register_all r (c # cs) s = Inr s2" by (simp add: 1(1) 2(1))
  have enc: "\<forall>v oc. entry s2 (encoders r) v oc =
        (case latest_encoder (c # cs) v oc of Some f \<Rightarrow> Some f | None \<Rightarrow> entry s (encoders r) v oc)"
    by (simp add: 2(4) 1(4) latest_encoder_Cons [of c cs] split: option.splits)
  have dec: "\<forall>v oc. entry s2 (decoders r) v oc =
        (case latest_decoder (c # cs) v oc of Some f \<Rightarrow> Some f | None \<Rightarrow> entry s (decoders r) v oc)"
    by (simp add: 2(5) 1(5) latest_decoder_Cons [of c cs] split: option.splits)
  have oth: "\<forall>x\<in>D. x \<noteq> encoders r \<longrightarrow> x \<noteq> decoders r \<longrightarrow>
        (\<forall>v oc. entry s2 x v oc = entry s x v oc) \<and> versions_of s2 x = versions_of s x"
    using 1(6) 2(6) by simp
  show ?case
    using run 2(2) 1(3) 2(3) enc dec oth by (intro exI [of _ s2]) simp
qed


lemma get_encoder_entry:
  "get_encoder r v oc s =
     (case entry s (encoders r) v oc of Some f \<Rightarrow> Inr f | None \<Rightarrow> Inl (ValueError (no_codec_message oc v)))"
  by (simp add: get_encoder_def priv_get_entry)

lemma get_decoder_entry:
  "get_decoder r v oc s =
     (case entry s (decoders r) v oc of Some f \<Rightarrow> Inr f | None \<Rightarrow> Inl (ValueError (no_codec_message oc v)))"
  by (simp add: get_decoder_def priv_get_entry)

lemma registry_trace:
  assumes init: "MessageCodecRegistry_init s0 = (r, s1)"
  shows "\<exists>s. register_all r cs s1 = Inr s \<and>
           separate s {encoders r, decoders r} \<and> encoders r \<noteq> decoders r \<and>
           (\<forall>v oc. entry s (encoders r) v oc = latest_encoder cs v oc) \<and>
           (\<forall>v oc. entry s (decoders r) v oc = latest_decoder cs v oc)"
proof -
  note i = init_effect [OF separate_empty init]
  have sep: "separate s1 {encoders r, decoders r}" using i(1) by simp
  obtain s where s: "register_all r cs s1 = Inr s" "separate s {encoders r, decoders r}"
    "\<forall>v oc. entry s (encoders r) v oc =
        (case latest_encoder cs v oc of Some f \<Rightarrow> Some f | None \<Rightarrow> entry s1 (encoders r) v oc)"
    "\<forall>v oc. entry s (decoders r) v oc =
        (case latest_decoder cs v oc of Some f \<Rightarrow> Some f | None \<Rightarrow> entry s1 (decoders r) v oc)"
    using register_all_effect [OF sep _ _ i(2), of cs] by auto
  have "\<forall>v oc. entry s (encoders r) v oc = latest_encoder cs v oc"
    by (simp add: s(3) i(5) split: option.splits)
  moreover have "\<forall>v oc. entry s (decoders r) v oc = latest_decoder cs v oc"
    by (simp add: s(4) i(6) split: option.splits)
  ultimately show ?thesis using s(1,2) i(2) by blast
qed

lemma returns_mono: "returns m Q \<Longrightarrow> (\<And>x. Q x \<Longrightarrow> Q' x) \<Longrightarrow> returns m Q'"
  by (cases m) (simp_all add: returns_def)


lemma latest_encoder_None: "(\<forall>f. AddEncoder v oc f \<notin> set cs) \<Longrightarrow> latest_encoder cs v oc = None"
proof (induction cs)
  case Nil
  then show ?case by simp
next
  case (Cons c cs)
  then show ?case by (cases c) auto
qed

lemma latest_decoder_None: "(\<forall>f. AddDecoder v oc f \<notin> set cs) \<Longrightarrow> latest_decoder cs v oc = None"
proof (induction cs)
  case Nil
  then show ?case by simp
next
  case (Cons c cs)
  then show ?case by (cases c) auto
qed

lemma priv_get_missing:
  "map_of (outer_dicts s d) v = None \<Longrightarrow>
     priv_get d v oc s = Inl (ValueError (no_codec_message oc v))"
  "map_of (outer_dicts s d) v = Some a \<Longrightarrow> map_of (inner_dicts s a) oc = None \<Longrightarrow>
     priv_get d v oc s = Inl (ValueError (no_codec_message oc v))"
  by (simp_all add: priv_get_entry entry_def)


subsection \<open>The message of the ValueError\<close>

lemma digit_value_digit_char: "n < 16 \<Longrightarrow> digit_value (digit_char n) = n"
proof -
  have "\<forall>n \<in> set [0..<16]. digit_value (digit_char n) = n"
    by (simp add: digit_value_def digit_char_def upt_rec)
  then show "n < 16 \<Longrightarrow> digit_value (digit_char n) = n" by simp
qed

lemma digit_char_plain: "n < 16 \<Longrightarrow> digit_char n \<noteq> CHR 0x27 \<and> digit_char n \<noteq> CHR ''-''"
proof -
  have "\<forall>n \<in> set [0..<16]. digit_char n \<noteq> CHR 0x27 \<and> digit_char n \<noteq> CHR ''-''"
    by (simp add: digit_char_def upt_rec)
  then show "n < 16 \<Longrightarrow> digit_char n \<noteq> CHR 0x27 \<and> digit_char n \<noteq> CHR ''-''" by simp
qed

lemma undigits_snoc: "undigits b (ds @ [c]) = undigits b ds * b + digit_value c"
  by (simp add: undigits_def)

lemma undigits_digits: "2 \<le> b \<Longrightarrow> b \<le> 16 \<Longrightarrow> undigits b (digits b n) = n"
proof (induction b n rule: digits.induct)
  case (1 b n)
  show ?case
  proof (cases "n < b")
    case True
    then have "n < 16" using "1.prems" by simp
    then show ?thesis using True by (simp add: digits.simps [of b n] undigits_def digit_value_digit_char)
  next
    case False
    have "n mod b < b" using "1.prems" by simp
    then have "n mod b < 16" using "1.prems" by linarith
    then show ?thesis
      using False "1.prems" "1.IH" by (simp add: digits.simps [of b n] undigits_snoc digit_value_digit_char)
  qed
qed

lemma digits_plain:
  "2 \<le> b \<Longrightarrow> b \<le> 16 \<Longrightarrow> CHR 0x27 \<notin> set (digits b n) \<and> CHR ''-'' \<notin> set (digits b n)"
proof (induction b n rule: digits.induct)
  case (1 b n)
  show ?case
  proof (cases "n < b")
    case True
    then have "n < 16" using "1.prems" by simp
    then show ?thesis using True digit_char_plain [of n] by (auto simp: digits.simps [of b n])
  next
    case False
    have "n mod b < b" using "1.prems" by simp
    then have "n mod b < 16" using "1.prems" by linarith
    then show ?thesis
      using False "1.prems" "1.IH" digit_char_plain [of "n mod b"] by (auto simp: digits.simps [of b n])
  qed
qed

lemma digits_nonempty: "digits b n \<noteq> []"
  by (subst digits.simps) simp

lemma undigits_zero_pad: "undigits b (zero_pad w ds) = undigits b ds"
proof -
  have z: "digit_value (CHR ''0'') = 0"
    by (simp add: digit_value_def)
  have "foldl (\<lambda>n c. n * b + digit_value c) 0 (replicate k (CHR ''0'')) = 0" for k
    by (induction k) (simp_all add: z)
  then show ?thesis by (simp add: undigits_def zero_pad_def)
qed

lemma zero_pad_plain:
  "CHR 0x27 \<notin> set ds \<Longrightarrow> CHR ''-'' \<notin> set ds \<Longrightarrow>
   CHR 0x27 \<notin> set (zero_pad w ds) \<and> CHR ''-'' \<notin> set (zero_pad w ds)"
  by (auto simp: zero_pad_def)

lemma zero_pad_nonempty: "ds \<noteq> [] \<Longrightarrow> zero_pad w ds \<noteq> []"
  by (simp add: zero_pad_def)

lemma parse_int_plain:
  "ds \<noteq> [] \<Longrightarrow> CHR ''-'' \<notin> set ds \<Longrightarrow> parse_int b ds = int (undigits b ds)"
  by (cases ds) (auto simp: parse_int_def)

lemma parse_format_02X: "parse_int 16 (format_02X i) = i"
proof (cases "i < 0")
  case True
  then show ?thesis
    by (simp add: format_02X_def parse_int_def undigits_zero_pad undigits_digits)
next
  case False
  have "parse_int 16 (zero_pad 2 (digits 16 (nat i))) = int (undigits 16 (zero_pad 2 (digits 16 (nat i))))"
    using digits_plain [of 16 "nat i"] zero_pad_plain [of "digits 16 (nat i)" 2]
    by (intro parse_int_plain zero_pad_nonempty digits_nonempty) simp_all
  then show ?thesis
    using False by (simp add: format_02X_def undigits_zero_pad undigits_digits)
qed

lemma parse_str_int: "parse_int 10 (str_int i) = i"
proof (cases "i < 0")
  case True
  then show ?thesis
    by (simp add: str_int_def parse_int_def undigits_digits)
next
  case False
  have "parse_int 10 (digits 10 (nat i)) = int (undigits 10 (digits 10 (nat i)))"
    using digits_plain [of 10 "nat i"]
    by (intro parse_int_plain digits_nonempty) simp_all
  then show ?thesis
    using False by (simp add: str_int_def undigits_digits)
qed

lemma format_02X_no_quote: "CHR 0x27 \<notin> set (format_02X i)"
  using digits_plain [of 16 "nat i"] digits_plain [of 16 "nat (- i)"]
    zero_pad_plain [of "digits 16 (nat i)" 2] zero_pad_plain [of "digits 16 (nat (- i))" 1]
  by (simp add: format_02X_def)

lemma before_quote:
  assumes "CHR 0x27 \<notin> set xs" "CHR 0x27 \<notin> set ys"
    and "xs @ CHR 0x27 # us = ys @ CHR 0x27 # vs"
  shows "xs = ys \<and> us = vs"
proof -
  have a: "takeWhile (\<lambda>c. c \<noteq> CHR 0x27) (xs @ CHR 0x27 # us) = xs"
    using assms(1) by (auto simp: takeWhile_tail)
  have b: "takeWhile (\<lambda>c. c \<noteq> CHR 0x27) (ys @ CHR 0x27 # vs) = ys"
    using assms(2) by (auto simp: takeWhile_tail)
  have "xs = takeWhile (\<lambda>c. c \<noteq> CHR 0x27) (ys @ CHR 0x27 # vs)"
    using a by (simp only: assms(3))
  then have "xs = ys" by (simp only: b)
  then show ?thesis using assms(3) by simp
qed

lemma no_codec_message_inj:
  assumes "no_codec_message oc v = no_codec_message oc' v'"
  shows "oc = oc' \<and> v = v'"
proof -
  have 1: "format_02X oc @ CHR 0x27 # ('' and protocol version '' @ [CHR 0x27] @ str_int v @ [CHR 0x27]) =
        format_02X oc' @ CHR 0x27 # ('' and protocol version '' @ [CHR 0x27] @ str_int v' @ [CHR 0x27])"
    using assms by (simp add: no_codec_message_def)
  have 2: "format_02X oc = format_02X oc'"
    and 3: "'' and protocol version '' @ [CHR 0x27] @ str_int v @ [CHR 0x27] =
        '' and protocol version '' @ [CHR 0x27] @ str_int v' @ [CHR 0x27]"
    using before_quote [OF format_02X_no_quote format_02X_no_quote 1] by simp_all
  have "oc = oc'" using 2 by (metis parse_format_02X)
  moreover have "str_int v = str_int v'" using 3 by simp
  then have "v = v'" by (metis parse_str_int)
  ultimately show ?thesis by simp
qed

subsection \<open>The default build\<close>

lemma register_all_append:
  "register_all r (cs @ ds) s =
     (case register_all r cs s of Inl e \<Rightarrow> Inl e | Inr s' \<Rightarrow> register_all r ds s')"
  by (induction cs arbitrary: s) (simp_all split: sum.splits)

lemma add_encoders_register:
  "add_encoders P r v ms s =
     register_all r (map (\<lambda>m. AddEncoder v (message_opcode P m) (encode m)) ms) s"
  by (induction ms arbitrary: s) (simp_all split: sum.splits)

lemma add_decoders_register:
  "add_decoders P r v cs s =
     register_all r (map (\<lambda>c. AddDecoder v (opcode_of P c) (decode_of c)) cs) s"
  by (induction cs arbitrary: s) (simp_all split: sum.splits)

lemma build_versions_register:
  "build_versions P r vs s =
     register_all r (concat (map (\<lambda>v. encoder_registrations P v @ decoder_registrations P v) vs)) s"
  by (induction vs arbitrary: s)
    (simp_all add: register_all_append add_encoders_register add_decoders_register
      encoder_registrations_def decoder_registrations_def split: sum.splits)

lemma latest_encoder_append:
  "latest_encoder (cs @ ds) v oc =
     (case latest_encoder ds v oc of Some g \<Rightarrow> Some g | None \<Rightarrow> latest_encoder cs v oc)"
proof (induction cs)
  case Nil
  then show ?case by (simp split: option.splits)
next
  case (Cons c cs)
  then show ?case by (cases c) (simp_all split: option.splits)
qed

lemma latest_decoder_append:
  "latest_decoder (cs @ ds) v oc =
     (case latest_decoder ds v oc of Some g \<Rightarrow> Some g | None \<Rightarrow> latest_decoder cs v oc)"
proof (induction cs)
  case Nil
  then show ?case by (simp split: option.splits)
next
  case (Cons c cs)
  then show ?case by (cases c) (simp_all split: option.splits)
qed

lemma latest_encoder_encoders:
  "latest_encoder (map (\<lambda>m. AddEncoder w (k m) (g m)) ms) v oc =
     (if v = w then map_of (rev (map (\<lambda>m. (k m, g m)) ms)) oc else None)"
  by (induction ms) (auto simp: map_add_def split: option.splits)

lemma latest_encoder_decoders:
  "latest_encoder (map (\<lambda>c. AddDecoder w (k c) (g c)) cs) v oc = None"
  by (induction cs) simp_all

lemma latest_decoder_decoders:
  "latest_decoder (map (\<lambda>m. AddDecoder w (k m) (g m)) ms) v oc =
     (if v = w then map_of (rev (map (\<lambda>m. (k m, g m)) ms)) oc else None)"
  by (induction ms) (auto simp: map_add_def split: option.splits)

lemma latest_decoder_encoders:
  "latest_decoder (map (\<lambda>c. AddEncoder w (k c) (g c)) cs) v oc = None"
  by (induction cs) simp_all

lemma latest_encoder_block:
  "latest_encoder (encoder_registrations P w @ decoder_registrations P w) v oc =
     (if v = w then default_encoders P oc else None)"
  by (simp add: latest_encoder_append encoder_registrations_def decoder_registrations_def
      latest_encoder_decoders latest_encoder_encoders default_encoders_def)

lemma latest_decoder_block:
  "latest_decoder (encoder_registrations P w @ decoder_registrations P w) v oc =
     (if v = w then default_decoders P oc else None)"
  by (simp add: latest_decoder_append encoder_registrations_def decoder_registrations_def
      latest_decoder_decoders latest_decoder_encoders default_decoders_def split: option.splits)

lemma latest_encoder_versions:
  "latest_encoder (concat (map (\<lambda>v. encoder_registrations P v @ decoder_registrations P v) vs)) v oc =
     (if v \<in> set vs then default_encoders P oc else None)"
proof (induction vs)
  case Nil
  then show ?case by simp
next
  case (Cons w vs)
  have "latest_encoder ((encoder_registrations P w @ decoder_registrations P w) @
      concat (map (\<lambda>v. encoder_registrations P v @ decoder_registrations P v) vs)) v oc =
     (if v \<in> set (w # vs) then default_encoders P oc else None)"
    by (subst latest_encoder_append) (simp add: Cons latest_encoder_block split: option.splits)
  then show ?case by simp
qed

lemma latest_decoder_versions:
  "latest_decoder (concat (map (\<lambda>v. encoder_registrations P v @ decoder_registrations P v) vs)) v oc =
     (if v \<in> set vs then default_decoders P oc else None)"
proof (induction vs)
  case Nil
  then show ?case by simp
next
  case (Cons w vs)
  have "latest_decoder ((encoder_registrations P w @ decoder_registrations P w) @
      concat (map (\<lambda>v. encoder_registrations P v @ decoder_registrations P v) vs)) v oc =
     (if v \<in> set (w # vs) then default_decoders P oc else None)"
    by (subst latest_decoder_append) (simp add: Cons latest_decoder_block split: option.splits)
  then show ?case by simp
qed

lemma priv_add_versions:
  assumes "priv_add d v oc f s = Inr s'"
  shows "set (versions_of s' e) = (if e = d then insert v (set (versions_of s e)) else set (versions_of s e))"
  using assms by (cases "map_of (outer_dicts s d) v")
    (auto simp: priv_add_new priv_add_old inner_setitem_def versions_of_def dest: map_of_Some_key)

lemma register_all_versions:
  assumes "register_all r cs s = Inr s'" and ne: "encoders r \<noteq> decoders r"
  shows "set (versions_of s' (encoders r)) = set (versions_of s (encoders r)) \<union> (\<Union>c\<in>set cs. encoder_version c)"
    and "set (versions_of s' (decoders r)) = set (versions_of s (decoders r)) \<union> (\<Union>c\<in>set cs. decoder_version c)"
  using assms(1)
proof (induction cs arbitrary: s)
  case Nil
  { case 1 then show ?case by simp }
  { case 2 then show ?case by simp }
next
  case (Cons c cs)
  { case 1
    then obtain s1 where s1: "register r c s = Inr s1" "register_all r cs s1 = Inr s'"
      by (auto split: sum.splits)
    have "set (versions_of s1 (encoders r)) = set (versions_of s (encoders r)) \<union> encoder_version c"
      using s1(1) ne by (cases c) (auto simp: add_encoder_def add_decoder_def priv_add_versions)
    then show ?case using Cons.IH(1) [OF s1(2)] by auto }
  { case 2
    then obtain s1 where s1: "register r c s = Inr s1" "register_all r cs s1 = Inr s'"
      by (auto split: sum.splits)
    have "set (versions_of s1 (decoders r)) = set (versions_of s (decoders r)) \<union> decoder_version c"
      using s1(1) ne by (cases c) (auto simp: add_encoder_def add_decoder_def priv_add_versions)
    then show ?case using Cons.IH(2) [OF s1(2)] by auto }
qed

lemma default_registrations_versions:
  "(\<Union>c\<in>set (default_registrations P). encoder_version c) = set protocol_versions"
  "(\<Union>c\<in>set (default_registrations P). decoder_version c) = set protocol_versions"
  by (auto simp: default_registrations_def encoder_registrations_def decoder_registrations_def
      outbound_messages_def inbound_codecs_def)

lemma build_message_codec_registry_register:
  "build_message_codec_registry P s =
     (case MessageCodecRegistry_init s of (r, s1) \<Rightarrow>
        case register_all r (default_registrations P) s1 of
          Inl e \<Rightarrow> Inl e
        | Inr s2 \<Rightarrow> Inr (r, s2))"
  by (simp add: build_message_codec_registry_def build_versions_register default_registrations_def)

lemma build_effect:
  assumes sep: "separate s0 D"
  shows "\<exists>r s. build_message_codec_registry P s0 = Inr (r, s) \<and>
     separate s (insert (encoders r) (insert (decoders r) D)) \<and>
     encoders r \<noteq> decoders r \<and> encoders r \<notin> D \<and> decoders r \<notin> D \<and>
     (\<forall>v oc. entry s (encoders r) v oc = (if v \<in> set protocol_versions then default_encoders P oc else None)) \<and>
     (\<forall>v oc. entry s (decoders r) v oc = (if v \<in> set protocol_versions then default_decoders P oc else None)) \<and>
     set (versions_of s (encoders r)) = set protocol_versions \<and>
     set (versions_of s (decoders r)) = set protocol_versions \<and>
     (\<forall>e\<in>D. (\<forall>v oc. entry s e v oc = entry s0 e v oc) \<and> versions_of s e = versions_of s0 e) \<and>
     next_addr s0 \<le> next_addr s"
proof -
  obtain r s1 where init: "MessageCodecRegistry_init s0 = (r, s1)"
    by (cases "MessageCodecRegistry_init s0")
  note i = init_effect [OF sep init]
  let ?D = "insert (encoders r) (insert (decoders r) D)"
  let ?cs = "default_registrations P"
  obtain s where s: "register_all r ?cs s1 = Inr s" "separate s ?D" "next_addr s1 \<le> next_addr s"
    "\<forall>v oc. entry s (encoders r) v oc =
        (case latest_encoder ?cs v oc of Some f \<Rightarrow> Some f | None \<Rightarrow> entry s1 (encoders r) v oc)"
    "\<forall>v oc. entry s (decoders r) v oc =
        (case latest_decoder ?cs v oc of Some f \<Rightarrow> Some f | None \<Rightarrow> entry s1 (decoders r) v oc)"
    "\<forall>x\<in>?D. x \<noteq> encoders r \<longrightarrow> x \<noteq> decoders r \<longrightarrow>
        (\<forall>v oc. entry s x v oc = entry s1 x v oc) \<and> versions_of s x = versions_of s1 x"
    using register_all_effect [OF i(1) _ _ i(2), of ?cs] by auto
  have run: "build_message_codec_registry P s0 = Inr (r, s)"
    by (simp add: build_message_codec_registry_register init s(1))
  have enc: "\<forall>v oc. entry s (encoders r) v oc = (if v \<in> set protocol_versions then default_encoders P oc else None)"
    by (simp add: s(4) i(5) default_registrations_def latest_encoder_versions split: option.splits)
  have dec: "\<forall>v oc. entry s (decoders r) v oc = (if v \<in> set protocol_versions then default_decoders P oc else None)"
    by (simp add: s(5) i(6) default_registrations_def latest_decoder_versions split: option.splits)
  have ve: "set (versions_of s (encoders r)) = set protocol_versions"
    using register_all_versions(1) [OF s(1) i(2)] by (simp add: i(7) default_registrations_versions)
  have vd: "set (versions_of s (decoders r)) = set protocol_versions"
    using register_all_versions(2) [OF s(1) i(2)] by (simp add: i(8) default_registrations_versions)
  have oth: "\<forall>e\<in>D. (\<forall>v oc. entry s e v oc = entry s0 e v oc) \<and> versions_of s e = versions_of s0 e"
    using s(6) i(3,4,9,10) by auto
  have "next_addr s0 \<le> next_addr s" using i(11) s(3) by simp
  then show ?thesis
    using run s(2) i(2,3,4) enc dec ve vd oth by blast
qed

lemma set_protocol_versions: "set protocol_versions = {V3, V4, V5}"
  by (simp add: protocol_versions_def)

lemma default_encoders_dom:
  "default_encoders P oc \<noteq> None \<longleftrightarrow>
     oc \<in> message_opcode P ` {StartupMessage, RegisterMessage, BatchMessage, QueryMessage,
       ExecuteMessage, PrepareMessage, OptionsMessage, AuthResponseMessage}"
  unfolding default_encoders_def map_of_eq_None_iff
  by (simp add: outbound_messages_def image_iff) blast

lemma default_decoders_dom:
  "default_decoders P oc \<noteq> None \<longleftrightarrow>
     oc \<in> codec_opcode P ` {ReadyMessage, EventMessage_Codec, ResultMessage_Codec,
       AuthenticateMessage, AuthSuccessMessage, AuthChallengeMessage, SupportedMessage,
       ErrorMessage_Codec}"
  unfolding default_decoders_def map_of_eq_None_iff
  by (simp add: inbound_codecs_def image_iff) blast

lemma default_decoders_error:
  "default_decoders P (codec_opcode P ErrorMessage_Codec) = Some (ErrorMessage_Codec_decode (error_decoders P))"
  by (simp add: default_decoders_def inbound_codecs_def)

lemma default_encoders_inj:
  assumes "inj (message_opcode P)"
  shows "default_encoders P (message_opcode P m) = Some (encode m)"
proof -
  have d: "distinct outbound_messages" by (simp add: outbound_messages_def)
  have "distinct (map fst (rev (map (\<lambda>m. (message_opcode P m, encode m)) outbound_messages)))"
    using assms d by (auto simp: rev_map distinct_map comp_def intro: inj_on_subset)
  moreover have "m \<in> set outbound_messages"
    by (cases m) (simp_all add: outbound_messages_def)
  then have "(message_opcode P m, encode m) \<in> set (rev (map (\<lambda>m. (message_opcode P m, encode m)) outbound_messages))"
    by auto
  ultimately show ?thesis
    unfolding default_encoders_def by (rule map_of_is_SomeI)
qed

lemma default_decoders_inj:
  assumes "inj (codec_opcode P)" and "c \<noteq> ErrorMessage_Codec"
  shows "default_decoders P (codec_opcode P c) = Some (decode c)"
proof -
  have "codec_opcode P c = codec_opcode P c' \<longleftrightarrow> c = c'" for c'
    using assms(1) by (auto dest: injD)
  then show ?thesis
    using assms(2) by (cases c) (simp_all add: default_decoders_def inbound_codecs_def)
qed

lemma inj_cql_message_opcode: "inj (message_opcode cql_protocol)"
proof (rule injI)
  fix x y
  assume "message_opcode cql_protocol x = message_opcode cql_protocol y"
  then show "x = y" by (cases x; cases y) (simp_all add: cql_protocol_def)
qed

lemma inj_cql_codec_opcode: "inj (codec_opcode cql_protocol)"
proof (rule injI)
  fix x y
  assume "codec_opcode cql_protocol x = codec_opcode cql_protocol y"
  then show "x = y" by (cases x; cases y) (simp_all add: cql_protocol_def)
qed

subsection \<open>Copies, handlers and the context\<close>

lemma copy_inner_dict_eq:
  "a \<noteq> next_addr t \<Longrightarrow> copy_inner_dict a t =
     (next_addr t, t\<lparr>inner_dicts := (inner_dicts t)(next_addr t := inner_dicts t a),
                     next_addr := Suc (next_addr t)\<rparr>)"
  by (simp add: copy_inner_dict_def new_inner_dict_def)

lemma deepcopy_items_effect:
  assumes "deepcopy_items xs y memo t = (memo', t')"
    and "distinct (map snd xs)" and "snd ` set xs \<inter> fst ` set memo = {}"
    and "\<forall>a\<in>snd ` set xs. a < next_addr t"
    and "distinct (map fst xs)" and "fst ` set xs \<inter> fst ` set (outer_dicts t y) = {}"
  shows "next_addr t' = next_addr t + length xs \<and>
    (\<forall>e. e \<noteq> y \<longrightarrow> outer_dicts t' e = outer_dicts t e) \<and>
    (\<forall>a. a < next_addr t \<longrightarrow> inner_dicts t' a = inner_dicts t a) \<and>
    outer_dicts t' y = outer_dicts t y @ zip (map fst xs) [next_addr t ..< next_addr t + length xs] \<and>
    (\<forall>i. i < length xs \<longrightarrow> inner_dicts t' (next_addr t + i) = inner_dicts t (snd (xs ! i)))"
  using assms
proof (induction xs arbitrary: memo t)
  case Nil
  then show ?case by simp
next
  case (Cons x xs)
  obtain k a where x: "x = (k, a)" by (cases x)
  let ?n = "next_addr t"
  let ?t1 = "t\<lparr>inner_dicts := (inner_dicts t)(?n := inner_dicts t a), next_addr := Suc ?n\<rparr>"
  let ?t2 = "outer_setitem y k ?n ?t1"
  let ?memo = "AList.update a ?n memo"
  note pre = Cons.prems
  have a_lt: "a < ?n" using pre(4) by (simp add: x)
  have miss: "map_of memo a = None"
    using pre(3) by (auto simp: x map_of_eq_None_iff)
  have run: "deepcopy_items xs y ?memo ?t2 = (memo', t')"
    using pre(1) miss a_lt by (simp add: x copy_inner_dict_eq)
  have p2: "distinct (map snd xs)" and p5: "distinct (map fst xs)"
    using pre(2,5) by simp_all
  have p3: "snd ` set xs \<inter> fst ` set ?memo = {}"
    using pre(2,3) by (auto simp: x dom_update)
  have p4: "\<forall>a\<in>snd ` set xs. a < next_addr ?t2"
    using pre(4) by (auto simp: outer_setitem_def)
  have p6: "fst ` set xs \<inter> fst ` set (outer_dicts ?t2 y) = {}"
    using pre(5,6) by (auto simp: x outer_setitem_def dom_update)
  note ih = Cons.IH [OF run p2 p3 p4 p5 p6]
  have knew: "map_of (outer_dicts t y) k = None"
    using pre(6) by (auto simp: x map_of_eq_None_iff)
  have c1: "next_addr t' = next_addr t + length (x # xs)"
    using ih by (simp add: outer_setitem_def)
  have c2: "\<forall>e. e \<noteq> y \<longrightarrow> outer_dicts t' e = outer_dicts t e"
    using ih by (simp add: outer_setitem_def)
  have c3: "\<forall>b. b < next_addr t \<longrightarrow> inner_dicts t' b = inner_dicts t b"
    using ih by (simp add: outer_setitem_def)
  have c4: "outer_dicts t' y =
      outer_dicts t y @ zip (map fst (x # xs)) [next_addr t ..< next_addr t + length (x # xs)]"
    using ih knew by (simp add: outer_setitem_def update_absent x upt_conv_Cons del: upt_Suc)
  have c5: "inner_dicts t' (next_addr t + i) = inner_dicts t (snd ((x # xs) ! i))"
    if i: "i < length (x # xs)" for i
  proof (cases i)
    case 0
    have "inner_dicts t' ?n = inner_dicts ?t2 ?n"
      using ih by (simp add: outer_setitem_def)
    then show ?thesis by (simp add: 0 x outer_setitem_def)
  next
    case (Suc j)
    then have j: "j < length xs" using i by simp
    have "inner_dicts t' (next_addr ?t2 + j) = inner_dicts ?t2 (snd (xs ! j))"
      using ih j by blast
    moreover have "xs ! j \<in> set xs"
      using j by simp
    then have "snd (xs ! j) < ?n"
      using pre(4) by simp
    ultimately show ?thesis by (simp add: Suc outer_setitem_def)
  qed
  show ?case using c1 c2 c3 c4 c5 by blast
qed

lemma separate_add_root:
  assumes sep: "separate s D"
    and same: "\<forall>e\<in>D. outer_dicts s' e = outer_dicts s e"
    and mono: "next_addr s \<le> next_addr s'"
    and y: "y < next_addr s'" "distinct (map fst (outer_dicts s' y))" "distinct (map snd (outer_dicts s' y))"
    and fresh: "\<forall>a\<in>inner_refs s' y. next_addr s \<le> a \<and> a < next_addr s'"
  shows "separate s' (insert y D)"
proof -
  have r: "\<And>e. e \<in> D \<Longrightarrow> inner_refs s' e = inner_refs s e"
    using same by (simp add: inner_refs_def)
  have lt: "\<And>e a. e \<in> D \<Longrightarrow> a \<in> inner_refs s e \<Longrightarrow> a < next_addr s"
    using sep by (simp add: separate_def)
  have one: "e < next_addr s' \<and> distinct (map fst (outer_dicts s' e)) \<and>
        distinct (map snd (outer_dicts s' e)) \<and> (\<forall>a\<in>inner_refs s' e. a < next_addr s')"
    if e: "e \<in> insert y D" for e
  proof (cases "e \<in> D")
    case True
    have "e < next_addr s" "distinct (map fst (outer_dicts s e))"
      "distinct (map snd (outer_dicts s e))"
      using sep True by (simp_all add: separate_def)
    moreover have "\<forall>a\<in>inner_refs s' e. a < next_addr s'"
      using lt [OF True] mono by (fastforce simp: r [OF True])
    ultimately show ?thesis using True same mono by simp
  next
    case False
    then have "e = y" using e by simp
    then show ?thesis using y fresh by simp
  qed
  have disj: "inner_refs s' e \<inter> inner_refs s' y = {}" if "e \<in> D" "e \<noteq> y" for e
    using lt [OF that(1)] fresh by (fastforce simp: r [OF that(1)])
  have two: "inner_refs s' e \<inter> inner_refs s' e' = {}"
    if ee: "e \<in> insert y D" "e' \<in> insert y D" "e \<noteq> e'" for e e'
  proof (cases "e \<in> D \<and> e' \<in> D")
    case True
    then have "inner_refs s e \<inter> inner_refs s e' = {}"
      using sep ee(3) by (simp add: separate_def)
    then show ?thesis using True by (simp add: r)
  next
    case False
    then have "(e = y \<and> e' \<in> D) \<or> (e' = y \<and> e \<in> D)" using ee by auto
    then show ?thesis
    proof
      assume "e = y \<and> e' \<in> D"
      then show ?thesis using disj [of e'] ee(3) by auto
    next
      assume "e' = y \<and> e \<in> D"
      then show ?thesis using disj [of e] ee(3) by auto
    qed
  qed
  show ?thesis
    unfolding separate_def using one two by blast
qed

lemma entry_same:
  assumes "separate s D" "e \<in> D" "outer_dicts s' e = outer_dicts s e"
    and "\<forall>a. a < next_addr s \<longrightarrow> inner_dicts s' a = inner_dicts s a"
  shows "entry s' e v oc = entry s e v oc" and "versions_of s' e = versions_of s e"
proof -
  show "versions_of s' e = versions_of s e" by (simp add: versions_of_def assms(3))
  show "entry s' e v oc = entry s e v oc"
  proof (cases "map_of (outer_dicts s e) v")
    case None
    then show ?thesis by (simp add: entry_def assms(3))
  next
    case (Some a)
    then have "a < next_addr s" using separate_refs_lt [OF assms(1,2)] by simp
    then show ?thesis using Some assms(4) by (simp add: entry_def assms(3))
  qed
qed

lemma deepcopy_effect:
  assumes sep: "separate s D" and x: "x \<in> D" and run: "deepcopy x s = (y, s')"
  shows "separate s' (insert y D)" and "y \<notin> D"
    and "\<And>v oc. entry s' y v oc = entry s x v oc"
    and "versions_of s' y = versions_of s x"
    and "\<And>e v oc. e \<in> D \<Longrightarrow> entry s' e v oc = entry s e v oc"
    and "\<And>e. e \<in> D \<Longrightarrow> versions_of s' e = versions_of s e"
    and "next_addr s \<le> next_addr s'"
proof -
  let ?s1 = "snd (new_outer_dict s)"
  let ?xs = "outer_dicts s x"
  let ?m = "Suc (next_addr s)"
  have xlt: "x < next_addr s" using sep x by (rule separate_lt)
  have y: "y = next_addr s" using run by (simp add: deepcopy_def new_outer_dict_def split: prod.splits)
  have s1: "outer_dicts ?s1 x = ?xs" "outer_dicts ?s1 y = []" "next_addr ?s1 = ?m"
    "inner_dicts ?s1 = inner_dicts s" "\<And>e. e \<noteq> y \<Longrightarrow> outer_dicts ?s1 e = outer_dicts s e"
    using xlt by (simp_all add: new_outer_dict_def y)
  obtain memo' where items: "deepcopy_items ?xs y [] ?s1 = (memo', s')"
    using run s1(1) by (cases "deepcopy_items ?xs y [] ?s1") (simp add: deepcopy_def y new_outer_dict_def)
  have dx: "distinct (map fst ?xs)" "distinct (map snd ?xs)" "\<forall>a\<in>inner_refs s x. a < next_addr s"
    using sep x by (simp_all add: separate_def)
  have eff: "next_addr s' = ?m + length ?xs \<and>
    (\<forall>e. e \<noteq> y \<longrightarrow> outer_dicts s' e = outer_dicts ?s1 e) \<and>
    (\<forall>a. a < ?m \<longrightarrow> inner_dicts s' a = inner_dicts ?s1 a) \<and>
    outer_dicts s' y = outer_dicts ?s1 y @ zip (map fst ?xs) [?m ..< ?m + length ?xs] \<and>
    (\<forall>i. i < length ?xs \<longrightarrow> inner_dicts s' (?m + i) = inner_dicts ?s1 (snd (?xs ! i)))"
    using deepcopy_items_effect [OF items dx(2) _ _ dx(1)] dx(3)
    by (simp add: s1 inner_refs_def less_Suc_eq)
  have n: "next_addr s' = ?m + length ?xs"
    and o: "\<And>e. e \<noteq> y \<Longrightarrow> outer_dicts s' e = outer_dicts s e"
    and i: "\<And>a. a < next_addr s \<Longrightarrow> inner_dicts s' a = inner_dicts s a"
    and oy: "outer_dicts s' y = zip (map fst ?xs) [?m ..< ?m + length ?xs]"
    and iy: "\<And>i. i < length ?xs \<Longrightarrow> inner_dicts s' (?m + i) = inner_dicts s (snd (?xs ! i))"
    using eff by (simp_all add: s1)
  show ynew: "y \<notin> D" using separate_lt [OF sep, of y] y by auto
  have same: "\<forall>e\<in>D. outer_dicts s' e = outer_dicts s e"
  proof
    fix e assume "e \<in> D"
    then have "e \<noteq> y" using ynew by auto
    then show "outer_dicts s' e = outer_dicts s e" by (rule o)
  qed
  show "next_addr s \<le> next_addr s'" by (simp add: n)
  have "separate s' (insert y D)"
  proof (rule separate_add_root [OF sep same])
    show "next_addr s \<le> next_addr s'" by (simp add: n)
    show "y < next_addr s'" by (simp add: n y)
    show "distinct (map fst (outer_dicts s' y))" using dx(1) by (simp add: oy)
    show "distinct (map snd (outer_dicts s' y))" by (simp add: oy)
    show "\<forall>a\<in>inner_refs s' y. next_addr s \<le> a \<and> a < next_addr s'"
      by (auto simp: inner_refs_def oy n dest!: set_zip_rightD)
  qed
  then show "separate s' (insert y D)" .
  have iall: "\<forall>a. a < next_addr s \<longrightarrow> inner_dicts s' a = inner_dicts s a"
    using i by blast
  show "entry s' e v oc = entry s e v oc" if "e \<in> D" for e v oc
  proof (rule entry_same(1) [OF sep that _ iall])
    show "outer_dicts s' e = outer_dicts s e" using same that by (rule bspec)
  qed
  show "versions_of s' e = versions_of s e" if "e \<in> D" for e
  proof (rule entry_same(2) [OF sep that _ iall])
    show "outer_dicts s' e = outer_dicts s e" using same that by (rule bspec)
  qed
  show "versions_of s' y = versions_of s x"
    by (simp add: versions_of_def oy del: upt_Suc)
  define zs where "zs = zip (map fst ?xs) [?m ..< ?m + length ?xs]"
  have oz: "outer_dicts s' y = zs" by (simp add: oy zs_def)
  show "entry s' y v oc = entry s x v oc" for v oc
  proof (cases "v \<in> set (map fst ?xs)")
    case False
    then have "map_of ?xs v = None" by (simp add: map_of_eq_None_iff)
    moreover have "map_of zs v = None"
      unfolding zs_def using False by (subst map_of_zip_is_None) (simp_all del: upt_Suc)
    ultimately show ?thesis by (simp add: entry_def oz)
  next
    case True
    then obtain j where j: "j < length ?xs" "v = map fst ?xs ! j"
      by (metis in_set_conv_nth length_map)
    have 1: "map_of zs v = Some (?m + j)"
      unfolding zs_def
      using map_of_zip_nth [of "map fst ?xs" "[?m ..< ?m + length ?xs]" j] dx(1) j
      by (simp del: upt_Suc)
    have "?xs ! j \<in> set ?xs" using j(1) by simp
    then have "(v, snd (?xs ! j)) \<in> set ?xs" using j by simp
    then have 2: "map_of ?xs v = Some (snd (?xs ! j))"
      using dx(1) by (simp add: map_of_is_SomeI)
    show ?thesis using iy [OF j(1)] by (simp add: entry_def oz 1 2)
  qed
qed

lemma patch_decoders_effect:
  assumes "separate t D" and "y \<in> D" and "set vs \<subseteq> set (versions_of t y)"
  shows "\<exists>t'. patch_decoders y oc f vs t = Inr t' \<and> separate t' D \<and>
     next_addr t' = next_addr t \<and> outer_dicts t' = outer_dicts t \<and>
     (\<forall>e\<in>D. \<forall>v oc'. entry t' e v oc' =
        (if e = y \<and> v \<in> set vs \<and> oc' = oc then Some f else entry t e v oc'))"
  using assms
proof (induction vs arbitrary: t)
  case Nil
  then show ?case by simp
next
  case (Cons w vs)
  have "w \<in> fst ` set (outer_dicts t y)"
    using Cons.prems(3) by (simp add: versions_of_def)
  then obtain a where a: "map_of (outer_dicts t y) w = Some a"
    using map_of_eq_None_iff [of "outer_dicts t y" w] by auto
  let ?t1 = "inner_setitem a oc f t"
  have o1: "outer_dicts ?t1 = outer_dicts t" "next_addr ?t1 = next_addr t"
    by (simp_all add: inner_setitem_def)
  have sep1: "separate ?t1 D"
    using separate_cong [OF Cons.prems(1) o1] .
  have vs1: "set vs \<subseteq> set (versions_of ?t1 y)"
    using Cons.prems(3) by (simp add: versions_of_def o1)
  obtain t' where t': "patch_decoders y oc f vs ?t1 = Inr t'" "separate t' D"
    "next_addr t' = next_addr ?t1" "outer_dicts t' = outer_dicts ?t1"
    "\<forall>e\<in>D. \<forall>v oc'. entry t' e v oc' =
        (if e = y \<and> v \<in> set vs \<and> oc' = oc then Some f else entry ?t1 e v oc')"
    using Cons.IH [OF sep1 Cons.prems(2) vs1] by blast
  have run: "patch_decoders y oc f (w # vs) t = Inr t'"
    by (simp add: dict_getitem_def a t'(1))
  have ent: "\<forall>e\<in>D. \<forall>v oc'. entry t' e v oc' =
        (if e = y \<and> v \<in> set (w # vs) \<and> oc' = oc then Some f else entry t e v oc')"
    using t'(5) entry_inner_setitem [OF Cons.prems(1,2) _ a, of _ oc f] by auto
  show ?case
    using run t'(2,3,4) ent o1 by (intro exI [of _ t']) simp
qed

lemma ProtocolHandler_init_effect:
  assumes sep: "separate s D" and ea: "ea \<in> D" and da: "da \<in> D"
    and run: "ProtocolHandler_init ea da s = (h, s')"
  shows "separate s' (insert (handler_encoders h) (insert (handler_decoders h) D))"
    and "handler_encoders h \<notin> D" and "handler_decoders h \<notin> D"
    and "handler_encoders h \<noteq> handler_decoders h"
    and "\<And>v oc. entry s' (handler_encoders h) v oc = entry s ea v oc"
    and "\<And>v oc. entry s' (handler_decoders h) v oc = entry s da v oc"
    and "\<And>e v oc. e \<in> D \<Longrightarrow> entry s' e v oc = entry s e v oc"
    and "\<And>e. e \<in> D \<Longrightarrow> versions_of s' e = versions_of s e"
    and "versions_of s' (handler_encoders h) = versions_of s ea"
    and "versions_of s' (handler_decoders h) = versions_of s da"
proof -
  obtain e s1 where c1: "deepcopy ea s = (e, s1)" by (cases "deepcopy ea s")
  obtain d s2 where c2: "deepcopy da s1 = (d, s2)" by (cases "deepcopy da s1")
  have h: "h = \<lparr>handler_encoders = e, handler_decoders = d\<rparr>" and s': "s' = s2"
    using run by (simp_all add: ProtocolHandler_init_def c1 c2)
  note e1 = deepcopy_effect [OF sep ea c1]
  have da1: "da \<in> insert e D" using da by simp
  note e2 = deepcopy_effect [OF e1(1) da1 c2]
  show "separate s' (insert (handler_encoders h) (insert (handler_decoders h) D))"
    using e2(1) by (simp add: h s' insert_commute)
  show "handler_encoders h \<notin> D" using e1(2) by (simp add: h)
  show "handler_decoders h \<notin> D" using e2(2) by (simp add: h)
  show "handler_encoders h \<noteq> handler_decoders h" using e2(2) by (auto simp: h)
  show "entry s' (handler_encoders h) v oc = entry s ea v oc" for v oc
    using e2(5) [of e v oc] e1(3) [of v oc] by (simp add: h s')
  show "entry s' (handler_decoders h) v oc = entry s da v oc" for v oc
    using e2(3) [of v oc] e1(5) [OF da, of v oc] by (simp add: h s')
  show "entry s' x v oc = entry s x v oc" if "x \<in> D" for x v oc
    using e2(5) [of x v oc] e1(5) [OF that, of v oc] that by (simp add: s')
  show "versions_of s' x = versions_of s x" if "x \<in> D" for x
    using e2(6) [of x] e1(6) [OF that] that by (simp add: s')
  show "versions_of s' (handler_encoders h) = versions_of s ea"
    using e2(6) [of e] e1(4) by (simp add: h s')
  show "versions_of s' (handler_decoders h) = versions_of s da"
    using e2(4) e1(6) [OF da] by (simp add: h s')
qed

lemma override_effect:
  assumes sep: "separate s D" and ea: "ea \<in> D" and da: "da \<in> D"
  shows "\<exists>h s'.
     (case deepcopy da s of (d', s1) \<Rightarrow>
        case patch_decoders d' oc f (versions_of s1 d') s1 of
          Inl e \<Rightarrow> Inl e
        | Inr s2 \<Rightarrow> Inr (ProtocolHandler_init ea d' s2)) = Inr (h, s') \<and>
     separate s' (insert (handler_encoders h) (insert (handler_decoders h) D)) \<and>
     handler_encoders h \<notin> D \<and> handler_decoders h \<notin> D \<and>
     (\<forall>v oc'. entry s' (handler_encoders h) v oc' = entry s ea v oc') \<and>
     (\<forall>v oc'. entry s' (handler_decoders h) v oc' =
        (if v \<in> set (versions_of s da) \<and> oc' = oc then Some f else entry s da v oc')) \<and>
     (\<forall>e\<in>D. (\<forall>v oc'. entry s' e v oc' = entry s e v oc') \<and> versions_of s' e = versions_of s e)"
proof -
  obtain d s1 where c: "deepcopy da s = (d, s1)" by (cases "deepcopy da s")
  note e1 = deepcopy_effect [OF sep da c]
  obtain s2 where p: "patch_decoders d oc f (versions_of s1 d) s1 = Inr s2"
    "separate s2 (insert d D)" "outer_dicts s2 = outer_dicts s1"
    "\<forall>e\<in>insert d D. \<forall>v oc'. entry s2 e v oc' =
        (if e = d \<and> v \<in> set (versions_of s1 d) \<and> oc' = oc then Some f else entry s1 e v oc')"
    using patch_decoders_effect [OF e1(1), of d "versions_of s1 d" oc f] by auto
  obtain h s' where i: "ProtocolHandler_init ea d s2 = (h, s')"
    by (cases "ProtocolHandler_init ea d s2")
  have ea2: "ea \<in> insert d D" and d2: "d \<in> insert d D" using ea by simp_all
  note e3 = ProtocolHandler_init_effect [OF p(2) ea2 d2 i]
  have v2: "versions_of s2 e = versions_of s1 e" for e
    by (simp add: versions_of_def p(3))
  have keep: "entry s2 e v oc' = entry s e v oc'" if "e \<in> D" for e v oc'
    using p(4) e1(2) e1(5) [OF that] that by auto
  have run: "(case deepcopy da s of (d', s1) \<Rightarrow>
        case patch_decoders d' oc f (versions_of s1 d') s1 of
          Inl e \<Rightarrow> Inl e
        | Inr s2 \<Rightarrow> Inr (ProtocolHandler_init ea d' s2)) = Inr (h, s')"
    by (simp add: c p(1) i)
  have sepf: "separate s' (insert (handler_encoders h) (insert (handler_decoders h) D))"
    by (rule separate_subset [OF e3(1)]) auto
  have enc: "\<forall>v oc'. entry s' (handler_encoders h) v oc' = entry s ea v oc'"
    using e3(5) keep [OF ea] by simp
  have dec: "\<forall>v oc'. entry s' (handler_decoders h) v oc' =
        (if v \<in> set (versions_of s da) \<and> oc' = oc then Some f else entry s da v oc')"
    using e3(6) p(4) e1(3,4) by simp
  have oth: "\<forall>e\<in>D. (\<forall>v oc'. entry s' e v oc' = entry s e v oc') \<and> versions_of s' e = versions_of s e"
    using e3(7,8) keep v2 e1(6) by simp
  show ?thesis
    using run sepf e3(2,3) enc dec oth by blast
qed

lemma message_codec_registry_new:
  "message_codec_registry P DriverContext_new s =
     (case build_message_codec_registry P s of
        Inl e \<Rightarrow> Inl e
      | Inr (r, s') \<Rightarrow> Inr (r, \<lparr>priv_message_codec_registry = Some r, priv_protocol_handler = None\<rparr>, s'))"
  by (simp add: message_codec_registry_def DriverContext_new_def split: sum.splits)

lemma message_codec_registry_cached:
  "priv_message_codec_registry ctx = Some r \<Longrightarrow> message_codec_registry P ctx s = Inr (r, ctx, s)"
  by (simp add: message_codec_registry_def)

lemma protocol_handler_first:
  assumes "priv_message_codec_registry ctx = Some r" "priv_protocol_handler ctx = None"
  shows "protocol_handler P ctx s =
     (case ProtocolHandler_init (encoders r) (decoders r) s of
        (h, s') \<Rightarrow> Inr (h, ctx\<lparr>priv_protocol_handler := Some h\<rparr>, s'))"
  using assms by (simp add: protocol_handler_def message_codec_registry_cached)

lemma protocol_handler_new:
  "protocol_handler P DriverContext_new s =
     (case build_message_codec_registry P s of
        Inl e \<Rightarrow> Inl e
      | Inr (r, s1) \<Rightarrow>
          (case ProtocolHandler_init (encoders r) (decoders r) s1 of
             (h, s') \<Rightarrow>
               Inr (h, \<lparr>priv_message_codec_registry = Some r, priv_protocol_handler = Some h\<rparr>, s')))"
proof (cases "build_message_codec_registry P s")
  case (Inl e)
  then show ?thesis
    by (simp add: protocol_handler_def message_codec_registry_def DriverContext_new_def)
next
  case (Inr p)
  obtain r s1 where p: "p = (r, s1)" by (cases p)
  show ?thesis
    by (simp add: Inr p protocol_handler_def message_codec_registry_def DriverContext_new_def
        split: prod.splits)
qed

lemma default_handler_effect:
  "\<exists>base ctx s r.
     protocol_handler P DriverContext_new st = Inr (base, ctx, s) \<and>
     message_codec_registry P ctx s = Inr (r, ctx, s) \<and>
     separate s {encoders r, decoders r, handler_encoders base, handler_decoders base} \<and>
     (\<forall>v oc. entry s (handler_encoders base) v oc = entry s (encoders r) v oc) \<and>
     (\<forall>v oc. entry s (handler_decoders base) v oc = entry s (decoders r) v oc) \<and>
     set (versions_of s (decoders r)) = set protocol_versions \<and>
     set (versions_of s (handler_decoders base)) = set protocol_versions"
proof -
  obtain r s1 where b: "build_message_codec_registry P st = Inr (r, s1)"
    "separate s1 {encoders r, decoders r}"
    "set (versions_of s1 (decoders r)) = set protocol_versions"
    using build_effect [OF separate_empty, where P = P and ?s0.0 = st] by auto
  obtain h s where i: "ProtocolHandler_init (encoders r) (decoders r) s1 = (h, s)"
    by (cases "ProtocolHandler_init (encoders r) (decoders r) s1 :: ProtocolHandler \<times> fn store")
  note e = ProtocolHandler_init_effect [OF b(2) _ _ i, simplified]
  let ?ctx = "\<lparr>priv_message_codec_registry = Some r, priv_protocol_handler = Some h\<rparr>"
  have 1: "protocol_handler P DriverContext_new st = Inr (h, ?ctx, s)"
    by (simp add: protocol_handler_new b(1) i)
  have 2: "message_codec_registry P ?ctx s = Inr (r, ?ctx, s)"
    by (simp add: message_codec_registry_cached)
  have 3: "separate s {encoders r, decoders r, handler_encoders h, handler_decoders h}"
    using e(1) by (simp add: insert_commute)
  have 4: "\<forall>v oc. entry s (handler_encoders h) v oc = entry s (encoders r) v oc"
    "\<forall>v oc. entry s (handler_decoders h) v oc = entry s (decoders r) v oc"
    using e(5,6,7) by simp_all
  have 5: "set (versions_of s (decoders r)) = set protocol_versions"
    "set (versions_of s (handler_decoders h)) = set protocol_versions"
    using e(8,10) b(3) by simp_all
  show ?thesis using 1 2 3 4 5 by blast
qed

lemma override_returns:
  assumes sep: "separate s D" and ea: "ea \<in> D" and da: "da \<in> D"
  shows "returns
     (case deepcopy da s of (d', s1) \<Rightarrow>
        case patch_decoders d' oc f (versions_of s1 d') s1 of
          Inl e \<Rightarrow> Inl e
        | Inr s2 \<Rightarrow> Inr (ProtocolHandler_init ea d' s2))
     (\<lambda>(custom, s').
        (\<forall>v oc'. handler_encoder custom v oc' s' = entry s ea v oc') \<and>
        (\<forall>v oc'. handler_decoder custom v oc' s' =
           (if v \<in> set (versions_of s da) \<and> oc' = oc then Some f else entry s da v oc')) \<and>
        (\<forall>e\<in>D. (\<forall>v oc'. entry s' e v oc' = entry s e v oc') \<and> versions_of s' e = versions_of s e) \<and>
        handler_encoders custom \<notin> D \<and> handler_decoders custom \<notin> D)"
proof -
  obtain h s' where r: "(case deepcopy da s of (d', s1) \<Rightarrow>
        case patch_decoders d' oc f (versions_of s1 d') s1 of
          Inl e \<Rightarrow> Inl e
        | Inr s2 \<Rightarrow> Inr (ProtocolHandler_init ea d' s2)) = Inr (h, s')"
     "\<forall>v oc'. entry s' (handler_encoders h) v oc' = entry s ea v oc'"
     "\<forall>v oc'. entry s' (handler_decoders h) v oc' =
        (if v \<in> set (versions_of s da) \<and> oc' = oc then Some f else entry s da v oc')"
     "\<forall>e\<in>D. (\<forall>v oc'. entry s' e v oc' = entry s e v oc') \<and> versions_of s' e = versions_of s e"
     "handler_encoders h \<notin> D" "handler_decoders h \<notin> D"
    using override_effect [OF sep ea da, of oc f] by blast
  show ?thesis
    unfolding r(1) using r(2-6) by (simp add: returns_def handler_encoder_def handler_decoder_def)
qed

section \<open>The claims\<close>

text \<open>
  Claim C1. On a new registry, any sequence of \<^verbatim>\<open>add_encoder\<close> and \<^verbatim>\<open>add_decoder\<close>
  calls returns without an exception, also when it registers a pair that is occupied already,
  and afterwards \<^verbatim>\<open>get_encoder\<close> (\<^verbatim>\<open>get_decoder\<close>) for a pair returns the function of
  the most recent \<^verbatim>\<open>add_encoder\<close> (\<^verbatim>\<open>add_decoder\<close>) call for that pair.
\<close>

theorem latest_registration_wins:
  "case MessageCodecRegistry_init s0 of (r, s1) \<Rightarrow>
     returns (register_all r cs s1) (\<lambda>s.
       (\<forall>v oc f. latest_encoder cs v oc = Some f \<longrightarrow> get_encoder r v oc s = Inr f) \<and>
       (\<forall>v oc f. latest_decoder cs v oc = Some f \<longrightarrow> get_decoder r v oc s = Inr f))"
proof -
  obtain r s1 where init: "MessageCodecRegistry_init s0 = (r, s1)"
    by (cases "MessageCodecRegistry_init s0")
  obtain s where s: "register_all r cs s1 = Inr s"
    "\<forall>v oc. entry s (encoders r) v oc = latest_encoder cs v oc"
    "\<forall>v oc. entry s (decoders r) v oc = latest_decoder cs v oc"
    using registry_trace [OF init, of cs] by blast
  show ?thesis
    by (simp add: init returns_def s get_encoder_entry get_decoder_entry)
qed

theorem latest_registration_wins_witness:
  "case MessageCodecRegistry_init (empty_store :: nat store) of (r, s1) \<Rightarrow>
     returns (register_all r [AddEncoder 4 7 (10::nat), AddDecoder 4 7 20, AddEncoder 3 7 30, AddEncoder 4 7 40] s1)
       (\<lambda>s. latest_encoder [AddEncoder 4 7 (10::nat), AddDecoder 4 7 20, AddEncoder 3 7 30, AddEncoder 4 7 40] 4 7 = Some 40 \<and>
            get_encoder r 4 7 s = Inr 40 \<and>
            latest_decoder [AddEncoder 4 7 (10::nat), AddDecoder 4 7 20, AddEncoder 3 7 30, AddEncoder 4 7 40] 4 7 = Some 20 \<and>
            get_decoder r 4 7 s = Inr 20)"
proof -
  let ?cs = "[AddEncoder 4 7 (10::nat), AddDecoder 4 7 20, AddEncoder 3 7 30, AddEncoder 4 7 40]"
  obtain r s1 where init: "MessageCodecRegistry_init (empty_store :: nat store) = (r, s1)"
    by (cases "MessageCodecRegistry_init (empty_store :: nat store)")
  have "returns (register_all r ?cs s1) (\<lambda>s.
       (\<forall>v oc f. latest_encoder ?cs v oc = Some f \<longrightarrow> get_encoder r v oc s = Inr f) \<and>
       (\<forall>v oc f. latest_decoder ?cs v oc = Some f \<longrightarrow> get_decoder r v oc s = Inr f))"
    using latest_registration_wins [of ?cs empty_store] by (simp add: init del: register_all.simps)
  then have "returns (register_all r ?cs s1) (\<lambda>s.
       latest_encoder ?cs 4 7 = Some 40 \<and> get_encoder r 4 7 s = Inr 40 \<and>
       latest_decoder ?cs 4 7 = Some 20 \<and> get_decoder r 4 7 s = Inr 20)"
    by (rule returns_mono) simp
  then show ?thesis by (simp add: init del: register_all.simps)
qed



text \<open>
  Claim C2. For a pair that no \<^verbatim>\<open>add_encoder\<close> (\<^verbatim>\<open>add_decoder\<close>) call was made for,
  \<^verbatim>\<open>get_encoder\<close> (\<^verbatim>\<open>get_decoder\<close>) raises the ValueError with the message made from
  the opcode and the version. In any store, \<^verbatim>\<open>_get\<close> raises it both when the version is
  missing from the outer dict and when only the opcode is missing under the version. The
  error is not the KeyError of the failed subscript, and its message determines the opcode
  and the version.
\<close>

theorem unregistered_pair_raises:
  "(case MessageCodecRegistry_init st of (r, s1) \<Rightarrow>
      returns (register_all r cs s1) (\<lambda>s.
        (\<forall>v oc. (\<forall>f. AddEncoder v oc f \<notin> set cs) \<longrightarrow>
           get_encoder r v oc s = Inl (ValueError (no_codec_message oc v))) \<and>
        (\<forall>v oc. (\<forall>f. AddDecoder v oc f \<notin> set cs) \<longrightarrow>
           get_decoder r v oc s = Inl (ValueError (no_codec_message oc v))))) \<and>
   (\<forall>d v oc. map_of (outer_dicts t d) v = None \<longrightarrow>
      priv_get d v oc t = Inl (ValueError (no_codec_message oc v))) \<and>
   (\<forall>d v oc a. map_of (outer_dicts t d) v = Some a \<and> map_of (inner_dicts t a) oc = None \<longrightarrow>
      priv_get d v oc t = Inl (ValueError (no_codec_message oc v))) \<and>
   (\<forall>oc v oc' v'. no_codec_message oc v = no_codec_message oc' v' \<longrightarrow> oc = oc' \<and> v = v') \<and>
   (\<forall>oc v. ValueError (no_codec_message oc v) \<noteq> KeyError)"
proof -
  obtain r s1 where init: "MessageCodecRegistry_init st = (r, s1)"
    by (cases "MessageCodecRegistry_init st")
  obtain u where u: "register_all r cs s1 = Inr u"
    "\<forall>v oc. entry u (encoders r) v oc = latest_encoder cs v oc"
    "\<forall>v oc. entry u (decoders r) v oc = latest_decoder cs v oc"
    using registry_trace [OF init, of cs] by blast
  have "returns (register_all r cs s1) (\<lambda>s.
        (\<forall>v oc. (\<forall>f. AddEncoder v oc f \<notin> set cs) \<longrightarrow>
           get_encoder r v oc s = Inl (ValueError (no_codec_message oc v))) \<and>
        (\<forall>v oc. (\<forall>f. AddDecoder v oc f \<notin> set cs) \<longrightarrow>
           get_decoder r v oc s = Inl (ValueError (no_codec_message oc v))))"
    by (simp add: returns_def u get_encoder_entry get_decoder_entry
        latest_encoder_None latest_decoder_None)
  then show ?thesis
    using no_codec_message_inj by (simp add: init priv_get_missing)
qed


theorem unregistered_pair_raises_witness:
  "(case MessageCodecRegistry_init (empty_store :: nat store) of (r, s1) \<Rightarrow>
      returns (register_all r [AddEncoder 4 7 10] s1) (\<lambda>s.
        (\<forall>f. AddEncoder 3 7 f \<notin> set [AddEncoder 4 7 (10::nat)]) \<and>
        get_encoder r 3 7 s = Inl (ValueError (no_codec_message 7 3)) \<and>
        (\<forall>f. AddEncoder 4 8 f \<notin> set [AddEncoder 4 7 (10::nat)]) \<and>
        get_encoder r 4 8 s = Inl (ValueError (no_codec_message 8 4)) \<and>
        (\<forall>f. AddDecoder 4 7 f \<notin> set [AddEncoder 4 7 (10::nat)]) \<and>
        get_decoder r 4 7 s = Inl (ValueError (no_codec_message 7 4)))) \<and>
   map_of (outer_dicts example_store 0) 3 = None \<and>
   priv_get 0 3 7 example_store = Inl (ValueError (no_codec_message 7 3)) \<and>
   map_of (outer_dicts example_store 0) 4 = Some 2 \<and> map_of (inner_dicts example_store 2) 8 = None \<and>
   priv_get 0 4 8 example_store = Inl (ValueError (no_codec_message 8 4)) \<and>
   no_codec_message 7 3 =
     ''No codec registered for message '' @ [CHR 0x27] @ ''07'' @ [CHR 0x27] @
     '' and protocol version '' @ [CHR 0x27] @ ''3'' @ [CHR 0x27]"
proof -
  let ?cs = "[AddEncoder 4 7 (10::nat)]"
  note inst = unregistered_pair_raises [where st = "empty_store :: nat store" and cs = ?cs
      and t = example_store]
  obtain r s1 where init: "MessageCodecRegistry_init (empty_store :: nat store) = (r, s1)"
    by (cases "MessageCodecRegistry_init (empty_store :: nat store)")
  have "returns (register_all r ?cs s1) (\<lambda>s.
        (\<forall>v oc. (\<forall>f. AddEncoder v oc f \<notin> set ?cs) \<longrightarrow>
           get_encoder r v oc s = Inl (ValueError (no_codec_message oc v))) \<and>
        (\<forall>v oc. (\<forall>f. AddDecoder v oc f \<notin> set ?cs) \<longrightarrow>
           get_decoder r v oc s = Inl (ValueError (no_codec_message oc v))))"
    using inst by (simp add: init del: register_all.simps)
  then have 1: "returns (register_all r ?cs s1) (\<lambda>s.
        (\<forall>f. AddEncoder 3 7 f \<notin> set ?cs) \<and>
        get_encoder r 3 7 s = Inl (ValueError (no_codec_message 7 3)) \<and>
        (\<forall>f. AddEncoder 4 8 f \<notin> set ?cs) \<and>
        get_encoder r 4 8 s = Inl (ValueError (no_codec_message 8 4)) \<and>
        (\<forall>f. AddDecoder 4 7 f \<notin> set ?cs) \<and>
        get_decoder r 4 7 s = Inl (ValueError (no_codec_message 7 4)))"
    by (rule returns_mono) simp
  have 2: "map_of (outer_dicts example_store 0) 3 = None"
    "map_of (outer_dicts example_store 0) 4 = Some 2" "map_of (inner_dicts example_store 2) 8 = None"
    by (simp_all add: example_store_def)
  have 3: "priv_get 0 3 7 example_store = Inl (ValueError (no_codec_message 7 3))"
    "priv_get 0 4 8 example_store = Inl (ValueError (no_codec_message 8 4))"
    using inst 2 by blast+
  have 4: "no_codec_message 7 3 =
     ''No codec registered for message '' @ [CHR 0x27] @ ''07'' @ [CHR 0x27] @
     '' and protocol version '' @ [CHR 0x27] @ ''3'' @ [CHR 0x27]"
    by code_simp
  show ?thesis
    using 1 2 3 4 by (simp add: init del: register_all.simps)
qed

text \<open>
  Claim C10. After any sequence of registrations on a new registry, \<^verbatim>\<open>add_encoder(v, oc, f)\<close>
  returns, makes \<open>f\<close> the encoder of \<open>(v, oc)\<close>, adds at most the key \<open>v\<close> to the outer dict
  of the encoders, and leaves the encoder of every other pair and the whole of the decoders as
  they were; \<^verbatim>\<open>add_decoder\<close> does the same with the two dicts exchanged.
\<close>

theorem add_changes_one_entry:
  "case MessageCodecRegistry_init s0 of (r, s1) \<Rightarrow>
     returns (register_all r cs s1) (\<lambda>s.
       returns (add_encoder r v oc f s) (\<lambda>s'.
         get_encoder r v oc s' = Inr f \<and>
         (\<forall>v' oc'. (v', oc') \<noteq> (v, oc) \<longrightarrow> get_encoder r v' oc' s' = get_encoder r v' oc' s) \<and>
         set (versions_of s' (encoders r)) = insert v (set (versions_of s (encoders r))) \<and>
         (\<forall>v' oc'. get_decoder r v' oc' s' = get_decoder r v' oc' s) \<and>
         versions_of s' (decoders r) = versions_of s (decoders r)) \<and>
       returns (add_decoder r v oc f s) (\<lambda>s'.
         get_decoder r v oc s' = Inr f \<and>
         (\<forall>v' oc'. (v', oc') \<noteq> (v, oc) \<longrightarrow> get_decoder r v' oc' s' = get_decoder r v' oc' s) \<and>
         set (versions_of s' (decoders r)) = insert v (set (versions_of s (decoders r))) \<and>
         (\<forall>v' oc'. get_encoder r v' oc' s' = get_encoder r v' oc' s) \<and>
         versions_of s' (encoders r) = versions_of s (encoders r)))"
proof -
  obtain r s1 where init: "MessageCodecRegistry_init s0 = (r, s1)"
    by (cases "MessageCodecRegistry_init s0")
  obtain s where s: "register_all r cs s1 = Inr s" "separate s {encoders r, decoders r}"
    "encoders r \<noteq> decoders r"
    using registry_trace [OF init, of cs] by blast
  obtain se where se: "priv_add (encoders r) v oc f s = Inr se"
    using priv_add_returns [of "encoders r" v oc f s] by blast
  obtain sd where sd: "priv_add (decoders r) v oc f s = Inr sd"
    using priv_add_returns [of "decoders r" v oc f s] by blast
  note e = priv_add_effect [OF s(2) _ se, simplified]
  note d = priv_add_effect [OF s(2) _ sd, simplified]
  have vd: "versions_of se (decoders r) = versions_of s (decoders r)"
    using e(4) [of "decoders r"] s(3) by (simp add: versions_of_def)
  have ve: "versions_of sd (encoders r) = versions_of s (encoders r)"
    using d(4) [of "encoders r"] s(3) by (simp add: versions_of_def)
  have "get_encoder r v oc se = Inr f \<and>
         (\<forall>v' oc'. (v', oc') \<noteq> (v, oc) \<longrightarrow> get_encoder r v' oc' se = get_encoder r v' oc' s) \<and>
         set (versions_of se (encoders r)) = insert v (set (versions_of s (encoders r))) \<and>
         (\<forall>v' oc'. get_decoder r v' oc' se = get_decoder r v' oc' s) \<and>
         versions_of se (decoders r) = versions_of s (decoders r)"
    using s(3) vd
    by (auto simp: get_encoder_entry get_decoder_entry e(2) e(5))
  moreover have "get_decoder r v oc sd = Inr f \<and>
         (\<forall>v' oc'. (v', oc') \<noteq> (v, oc) \<longrightarrow> get_decoder r v' oc' sd = get_decoder r v' oc' s) \<and>
         set (versions_of sd (decoders r)) = insert v (set (versions_of s (decoders r))) \<and>
         (\<forall>v' oc'. get_encoder r v' oc' sd = get_encoder r v' oc' s) \<and>
         versions_of sd (encoders r) = versions_of s (encoders r)"
    using s(3) ve
    by (auto simp: get_encoder_entry get_decoder_entry d(2) d(5))
  ultimately show ?thesis
    by (simp add: init returns_def s(1) add_encoder_def add_decoder_def se sd)
qed

theorem add_changes_one_entry_witness:
  "case MessageCodecRegistry_init (empty_store :: nat store) of (r, s1) \<Rightarrow>
     returns (register_all r [AddEncoder 4 7 10, AddDecoder 4 7 20, AddEncoder 3 7 30] s1) (\<lambda>s.
       returns (add_encoder r 4 7 99 s) (\<lambda>s'.
         get_encoder r 4 7 s' = Inr 99 \<and>
         (3, 7) \<noteq> (4 :: int, 7 :: int) \<and> get_encoder r 3 7 s' = get_encoder r 3 7 s \<and>
         (4, 8) \<noteq> (4 :: int, 7 :: int) \<and> get_encoder r 4 8 s' = get_encoder r 4 8 s \<and>
         get_decoder r 4 7 s' = get_decoder r 4 7 s) \<and>
       returns (add_decoder r 4 7 99 s) (\<lambda>s'.
         get_decoder r 4 7 s' = Inr 99 \<and>
         (3, 7) \<noteq> (4 :: int, 7 :: int) \<and> get_decoder r 3 7 s' = get_decoder r 3 7 s \<and>
         get_encoder r 4 7 s' = get_encoder r 4 7 s))"
proof -
  let ?cs = "[AddEncoder 4 7 (10::nat), AddDecoder 4 7 20, AddEncoder 3 7 30]"
  obtain r s1 where init: "MessageCodecRegistry_init (empty_store :: nat store) = (r, s1)"
    by (cases "MessageCodecRegistry_init (empty_store :: nat store)")
  have "returns (register_all r ?cs s1) (\<lambda>s.
       returns (add_encoder r 4 7 99 s) (\<lambda>s'.
         get_encoder r 4 7 s' = Inr 99 \<and>
         (\<forall>v' oc'. (v', oc') \<noteq> (4, 7) \<longrightarrow> get_encoder r v' oc' s' = get_encoder r v' oc' s) \<and>
         set (versions_of s' (encoders r)) = insert 4 (set (versions_of s (encoders r))) \<and>
         (\<forall>v' oc'. get_decoder r v' oc' s' = get_decoder r v' oc' s) \<and>
         versions_of s' (decoders r) = versions_of s (decoders r)) \<and>
       returns (add_decoder r 4 7 99 s) (\<lambda>s'.
         get_decoder r 4 7 s' = Inr 99 \<and>
         (\<forall>v' oc'. (v', oc') \<noteq> (4, 7) \<longrightarrow> get_decoder r v' oc' s' = get_decoder r v' oc' s) \<and>
         set (versions_of s' (decoders r)) = insert 4 (set (versions_of s (decoders r))) \<and>
         (\<forall>v' oc'. get_encoder r v' oc' s' = get_encoder r v' oc' s) \<and>
         versions_of s' (encoders r) = versions_of s (encoders r)))"
    using add_changes_one_entry [where ?s0.0 = "empty_store :: nat store" and cs = ?cs and v = 4 and oc = 7 and f = 99]
    by (simp add: init del: register_all.simps)
  then have "returns (register_all r ?cs s1) (\<lambda>s.
       returns (add_encoder r 4 7 99 s) (\<lambda>s'.
         get_encoder r 4 7 s' = Inr 99 \<and>
         (3, 7) \<noteq> (4 :: int, 7 :: int) \<and> get_encoder r 3 7 s' = get_encoder r 3 7 s \<and>
         (4, 8) \<noteq> (4 :: int, 7 :: int) \<and> get_encoder r 4 8 s' = get_encoder r 4 8 s \<and>
         get_decoder r 4 7 s' = get_decoder r 4 7 s) \<and>
       returns (add_decoder r 4 7 99 s) (\<lambda>s'.
         get_decoder r 4 7 s' = Inr 99 \<and>
         (3, 7) \<noteq> (4 :: int, 7 :: int) \<and> get_decoder r 3 7 s' = get_decoder r 3 7 s \<and>
         get_encoder r 4 7 s' = get_encoder r 4 7 s))"
    by (rule returns_mono) (auto elim!: returns_mono)
  then show ?thesis by (simp add: init del: register_all.simps)
qed

text \<open>
  Claim C5. The default build returns a registry in which exactly the pairs of a version
  among V3, V4, V5 and the opcode of one of the eight outbound message classes have an
  encoder, and exactly the pairs of such a version and the opcode of one of the eight
  inbound codecs have a decoder; the outer dicts have the keys V3, V4, V5. Where the opcodes
  of the classes are distinct, the entry for a class is the function of that class.
\<close>

theorem default_registry_keys:
  "returns (build_message_codec_registry P st) (\<lambda>(r, s).
     (\<forall>v oc. (\<exists>f. get_encoder r v oc s = Inr f) \<longleftrightarrow>
        v \<in> {V3, V4, V5} \<and>
        oc \<in> message_opcode P ` {StartupMessage, RegisterMessage, BatchMessage, QueryMessage,
          ExecuteMessage, PrepareMessage, OptionsMessage, AuthResponseMessage}) \<and>
     (\<forall>v oc. (\<exists>f. get_decoder r v oc s = Inr f) \<longleftrightarrow>
        v \<in> {V3, V4, V5} \<and>
        oc \<in> codec_opcode P ` {ReadyMessage, EventMessage_Codec, ResultMessage_Codec,
          AuthenticateMessage, AuthSuccessMessage, AuthChallengeMessage, SupportedMessage,
          ErrorMessage_Codec}) \<and>
     set (versions_of s (encoders r)) = {V3, V4, V5} \<and>
     set (versions_of s (decoders r)) = {V3, V4, V5} \<and>
     (inj (message_opcode P) \<longrightarrow>
        (\<forall>v m. v \<in> {V3, V4, V5} \<longrightarrow> get_encoder r v (message_opcode P m) s = Inr (encode m))) \<and>
     (inj (codec_opcode P) \<longrightarrow>
        (\<forall>v c. v \<in> {V3, V4, V5} \<and> c \<noteq> ErrorMessage_Codec \<longrightarrow>
           get_decoder r v (codec_opcode P c) s = Inr (decode c))))"
proof -
  obtain r s where b: "build_message_codec_registry P st = Inr (r, s)"
    "\<forall>v oc. entry s (encoders r) v oc = (if v \<in> set protocol_versions then default_encoders P oc else None)"
    "\<forall>v oc. entry s (decoders r) v oc = (if v \<in> set protocol_versions then default_decoders P oc else None)"
    "set (versions_of s (encoders r)) = set protocol_versions"
    "set (versions_of s (decoders r)) = set protocol_versions"
    using build_effect [OF separate_empty, where P = P and ?s0.0 = st] by blast
  have e: "(\<exists>f. get_encoder r v oc s = Inr f) \<longleftrightarrow>
        v \<in> {V3, V4, V5} \<and>
        oc \<in> message_opcode P ` {StartupMessage, RegisterMessage, BatchMessage, QueryMessage,
          ExecuteMessage, PrepareMessage, OptionsMessage, AuthResponseMessage}" for v oc
    using default_encoders_dom [of P oc]
    by (auto simp: get_encoder_entry b(2) set_protocol_versions split: option.splits)
  have d: "(\<exists>f. get_decoder r v oc s = Inr f) \<longleftrightarrow>
        v \<in> {V3, V4, V5} \<and>
        oc \<in> codec_opcode P ` {ReadyMessage, EventMessage_Codec, ResultMessage_Codec,
          AuthenticateMessage, AuthSuccessMessage, AuthChallengeMessage, SupportedMessage,
          ErrorMessage_Codec}" for v oc
    using default_decoders_dom [of P oc]
    by (auto simp: get_decoder_entry b(3) set_protocol_versions split: option.splits)
  have ei: "get_encoder r v (message_opcode P m) s = Inr (encode m)"
    if "inj (message_opcode P)" "v \<in> {V3, V4, V5}" for v m
    using that by (simp add: get_encoder_entry b(2) set_protocol_versions default_encoders_inj)
  have di: "get_decoder r v (codec_opcode P c) s = Inr (decode c)"
    if "inj (codec_opcode P)" "v \<in> {V3, V4, V5}" "c \<noteq> ErrorMessage_Codec" for v c
    using that by (simp add: get_decoder_entry b(3) set_protocol_versions default_decoders_inj)
  show ?thesis
    using e d ei di b(4,5) by (simp add: b(1) returns_def set_protocol_versions)
qed

theorem default_registry_keys_witness:
  "returns (build_message_codec_registry cql_protocol empty_store) (\<lambda>(r, s).
     inj (message_opcode cql_protocol) \<and> V4 \<in> {V3, V4, V5} \<and>
     get_encoder r V4 (message_opcode cql_protocol QueryMessage) s = Inr (encode QueryMessage) \<and>
     inj (codec_opcode cql_protocol) \<and> ResultMessage_Codec \<noteq> ErrorMessage_Codec \<and>
     get_decoder r V4 (codec_opcode cql_protocol ResultMessage_Codec) s = Inr (decode ResultMessage_Codec))"
  using default_registry_keys [of cql_protocol empty_store]
    inj_cql_message_opcode inj_cql_codec_opcode
  by (elim returns_mono) auto

text \<open>
  Claim C8. In the registry of the default build, the opcode of every outbound message class
  has an encoder, and it is the same function for V3, V4 and V5.
\<close>

theorem same_encoder_for_every_version:
  "returns (build_message_codec_registry P st) (\<lambda>(r, s).
     \<forall>m. (\<exists>f. get_encoder r V3 (message_opcode P m) s = Inr f) \<and>
          get_encoder r V3 (message_opcode P m) s = get_encoder r V4 (message_opcode P m) s \<and>
          get_encoder r V4 (message_opcode P m) s = get_encoder r V5 (message_opcode P m) s)"
proof -
  obtain r s where b: "build_message_codec_registry P st = Inr (r, s)"
    "\<forall>v oc. entry s (encoders r) v oc = (if v \<in> set protocol_versions then default_encoders P oc else None)"
    using build_effect [OF separate_empty, where P = P and ?s0.0 = st] by blast
  have "default_encoders P (message_opcode P m) \<noteq> None" for m
    unfolding default_encoders_dom by (cases m) simp_all
  then show ?thesis
    by (auto simp: b returns_def get_encoder_entry set_protocol_versions split: option.splits)
qed

text \<open>
  Claim C4, as amended. In the registry of the default build, the decoder for the opcode of
  \<^verbatim>\<open>ErrorMessage.Codec\<close> is, for each of V3, V4 and V5, the decode of an error codec made
  from the same dispatch list. The list is keyed by the error code alone and has one entry
  for each of the error classes that the build names, which are nineteen.
\<close>

theorem error_decoder_dispatch_table:
  "returns (build_message_codec_registry P st) (\<lambda>(r, s).
     get_decoder r V3 (codec_opcode P ErrorMessage_Codec) s = Inr (ErrorMessage_Codec_decode (error_decoders P)) \<and>
     get_decoder r V4 (codec_opcode P ErrorMessage_Codec) s = Inr (ErrorMessage_Codec_decode (error_decoders P)) \<and>
     get_decoder r V5 (codec_opcode P ErrorMessage_Codec) s = Inr (ErrorMessage_Codec_decode (error_decoders P))) \<and>
   map fst (error_decoders P) = map (error_code P) error_classes \<and>
   map snd (error_decoders P) = map error_decode error_classes \<and>
   length error_classes = 19 \<and> distinct error_classes \<and> set error_classes = UNIV"
proof -
  obtain r s where b: "build_message_codec_registry P st = Inr (r, s)"
    "\<forall>v oc. entry s (decoders r) v oc = (if v \<in> set protocol_versions then default_decoders P oc else None)"
    using build_effect [OF separate_empty, where P = P and ?s0.0 = st] by blast
  have 1: "returns (build_message_codec_registry P st) (\<lambda>(r, s).
     get_decoder r V3 (codec_opcode P ErrorMessage_Codec) s = Inr (ErrorMessage_Codec_decode (error_decoders P)) \<and>
     get_decoder r V4 (codec_opcode P ErrorMessage_Codec) s = Inr (ErrorMessage_Codec_decode (error_decoders P)) \<and>
     get_decoder r V5 (codec_opcode P ErrorMessage_Codec) s = Inr (ErrorMessage_Codec_decode (error_decoders P)))"
    by (simp add: b returns_def get_decoder_entry set_protocol_versions default_decoders_error)
  have 2: "set error_classes = UNIV"
  proof -
    have "e \<in> set error_classes" for e
      by (cases e) (simp_all add: error_classes_def)
    then show ?thesis by blast
  qed
  have 3: "length error_classes = 19" "distinct error_classes"
    by (simp_all add: error_classes_def)
  show ?thesis
    using 1 2 3 by (simp add: error_decoders_def comp_def)
qed

text \<open>
  The claim as stated has eighteen entries. With the numbers of the CQL protocol, on the
  empty store, the dispatch list of the error decoder for V3 has nineteen.
\<close>

theorem error_dispatch_table_not_18:
  "error_dispatch_size cql_protocol empty_store V3 = Inr 19 \<and>
   error_dispatch_size cql_protocol empty_store V3 \<noteq> Inr 18"
proof -
  have "error_dispatch_size cql_protocol empty_store V3 = Inr 19"
    by code_simp
  then show ?thesis by simp
qed

text \<open>
  Claim C9. The default build, run twice in a row, returns two registries that, in the store
  after the second run, have the same keys in their outer dicts and give the same answer
  to \<^verbatim>\<open>get_encoder\<close> and to \<^verbatim>\<open>get_decoder\<close> for every pair; the second run leaves
  the answers of the first registry as they were. The same holds of two runs that start
  from any two stores.
\<close>

theorem build_twice:
  "returns (build_message_codec_registry P st) (\<lambda>(r1, s1).
     returns (build_message_codec_registry P s1) (\<lambda>(r2, s2).
       (\<forall>v oc. get_encoder r1 v oc s2 = get_encoder r2 v oc s2) \<and>
       (\<forall>v oc. get_decoder r1 v oc s2 = get_decoder r2 v oc s2) \<and>
       set (versions_of s2 (encoders r1)) = set (versions_of s2 (encoders r2)) \<and>
       set (versions_of s2 (decoders r1)) = set (versions_of s2 (decoders r2)) \<and>
       (\<forall>v oc. get_encoder r1 v oc s2 = get_encoder r1 v oc s1) \<and>
       (\<forall>v oc. get_decoder r1 v oc s2 = get_decoder r1 v oc s1)) \<and>
     returns (build_message_codec_registry P st') (\<lambda>(r2, s2).
       (\<forall>v oc. get_encoder r1 v oc s1 = get_encoder r2 v oc s2) \<and>
       (\<forall>v oc. get_decoder r1 v oc s1 = get_decoder r2 v oc s2) \<and>
       set (versions_of s1 (encoders r1)) = set (versions_of s2 (encoders r2)) \<and>
       set (versions_of s1 (decoders r1)) = set (versions_of s2 (decoders r2))))"
proof -
  obtain r1 s1 where b1: "build_message_codec_registry P st = Inr (r1, s1)"
    "separate s1 {encoders r1, decoders r1}"
    "\<forall>v oc. entry s1 (encoders r1) v oc = (if v \<in> set protocol_versions then default_encoders P oc else None)"
    "\<forall>v oc. entry s1 (decoders r1) v oc = (if v \<in> set protocol_versions then default_decoders P oc else None)"
    "set (versions_of s1 (encoders r1)) = set protocol_versions"
    "set (versions_of s1 (decoders r1)) = set protocol_versions"
    using build_effect [OF separate_empty, where P = P and ?s0.0 = st] by auto
  obtain r2 s2 where b2: "build_message_codec_registry P s1 = Inr (r2, s2)"
    "\<forall>v oc. entry s2 (encoders r2) v oc = (if v \<in> set protocol_versions then default_encoders P oc else None)"
    "\<forall>v oc. entry s2 (decoders r2) v oc = (if v \<in> set protocol_versions then default_decoders P oc else None)"
    "set (versions_of s2 (encoders r2)) = set protocol_versions"
    "set (versions_of s2 (decoders r2)) = set protocol_versions"
    "\<forall>e\<in>{encoders r1, decoders r1}. (\<forall>v oc. entry s2 e v oc = entry s1 e v oc) \<and> versions_of s2 e = versions_of s1 e"
    using build_effect [OF b1(2), where P = P] by blast
  obtain r3 s3 where b3: "build_message_codec_registry P st' = Inr (r3, s3)"
    "\<forall>v oc. entry s3 (encoders r3) v oc = (if v \<in> set protocol_versions then default_encoders P oc else None)"
    "\<forall>v oc. entry s3 (decoders r3) v oc = (if v \<in> set protocol_versions then default_decoders P oc else None)"
    "set (versions_of s3 (encoders r3)) = set protocol_versions"
    "set (versions_of s3 (decoders r3)) = set protocol_versions"
    using build_effect [OF separate_empty, where P = P and ?s0.0 = st'] by blast
  show ?thesis
    using b2(6) by (simp add: b1 b2 b3 returns_def get_encoder_entry get_decoder_entry)
qed

text \<open>
  Claim C3. A context builds its registry; any registrations follow; the context builds its
  handler; any further registrations on the registry follow. The handler then holds, for
  every pair, what the registry held when the handler was built, and the later
  registrations, which the registry does show, change nothing of what the handler's encode
  and decode look up.
\<close>

theorem handler_is_a_snapshot:
  "returns (message_codec_registry P DriverContext_new st) (\<lambda>(r, ctx1, s1).
     returns (register_all r cs1 s1) (\<lambda>s2.
       returns (protocol_handler P ctx1 s2) (\<lambda>(h, ctx2, s3).
         (\<forall>v oc. handler_encoder h v oc s3 = entry s2 (encoders r) v oc) \<and>
         (\<forall>v oc. handler_decoder h v oc s3 = entry s2 (decoders r) v oc) \<and>
         returns (register_all r cs2 s3) (\<lambda>s4.
           (\<forall>v oc. handler_encoder h v oc s4 = handler_encoder h v oc s3) \<and>
           (\<forall>v oc. handler_decoder h v oc s4 = handler_decoder h v oc s3) \<and>
           (\<forall>v oc f. latest_encoder cs2 v oc = Some f \<longrightarrow> get_encoder r v oc s4 = Inr f) \<and>
           (\<forall>v oc f. latest_decoder cs2 v oc = Some f \<longrightarrow> get_decoder r v oc s4 = Inr f)))))"
proof -
  obtain r s1 where b: "build_message_codec_registry P st = Inr (r, s1)"
    "separate s1 {encoders r, decoders r}" "encoders r \<noteq> decoders r"
    using build_effect [OF separate_empty, where P = P and ?s0.0 = st] by auto
  let ?ctx1 = "\<lparr>priv_message_codec_registry = Some r, priv_protocol_handler = None\<rparr>"
  have 1: "message_codec_registry P DriverContext_new st = Inr (r, ?ctx1, s1)"
    by (simp add: message_codec_registry_new b(1))
  obtain s2 where s2: "register_all r cs1 s1 = Inr s2" "separate s2 {encoders r, decoders r}"
    using register_all_effect [OF b(2) _ _ b(3), of cs1] by auto
  obtain h s3 where i: "ProtocolHandler_init (encoders r) (decoders r) s2 = (h, s3)"
    by (cases "ProtocolHandler_init (encoders r) (decoders r) s2 :: ProtocolHandler \<times> fn store")
  have 3: "protocol_handler P ?ctx1 s2 = Inr (h, ?ctx1\<lparr>priv_protocol_handler := Some h\<rparr>, s3)"
    by (simp add: protocol_handler_first i)
  note e = ProtocolHandler_init_effect [OF s2(2) _ _ i, simplified]
  let ?D = "insert (handler_encoders h) (insert (handler_decoders h) {encoders r, decoders r})"
  obtain s4 where s4: "register_all r cs2 s3 = Inr s4"
    "\<forall>v oc. entry s4 (encoders r) v oc =
        (case latest_encoder cs2 v oc of Some f \<Rightarrow> Some f | None \<Rightarrow> entry s3 (encoders r) v oc)"
    "\<forall>v oc. entry s4 (decoders r) v oc =
        (case latest_decoder cs2 v oc of Some f \<Rightarrow> Some f | None \<Rightarrow> entry s3 (decoders r) v oc)"
    "\<forall>x\<in>?D. x \<noteq> encoders r \<longrightarrow> x \<noteq> decoders r \<longrightarrow>
        (\<forall>v oc. entry s4 x v oc = entry s3 x v oc) \<and> versions_of s4 x = versions_of s3 x"
    using register_all_effect [OF e(1) _ _ b(3), of cs2] by auto
  have he: "\<forall>v oc. entry s4 (handler_encoders h) v oc = entry s3 (handler_encoders h) v oc"
    using s4(4) e(2) by auto
  have hd: "\<forall>v oc. entry s4 (handler_decoders h) v oc = entry s3 (handler_decoders h) v oc"
    using s4(4) e(3) by auto
  show ?thesis
    by (simp add: 1 s2(1) 3 s4(1) returns_def handler_encoder_def handler_decoder_def
        he hd e(5,6) get_encoder_entry get_decoder_entry s4(2,3))
qed

theorem handler_is_a_snapshot_witness:
  "returns (message_codec_registry cql_protocol DriverContext_new empty_store) (\<lambda>(r, ctx1, s1).
     returns (register_all r [] s1) (\<lambda>s2.
       returns (protocol_handler cql_protocol ctx1 s2) (\<lambda>(h, ctx2, s3).
         returns (register_all r [AddDecoder V4 8 CustomResultMessageRaw_Codec_decode] s3) (\<lambda>s4.
           latest_decoder [AddDecoder V4 8 CustomResultMessageRaw_Codec_decode] V4 8 =
             Some CustomResultMessageRaw_Codec_decode \<and>
           get_decoder r V4 8 s4 = Inr CustomResultMessageRaw_Codec_decode \<and>
           handler_decoder h V4 8 s4 = handler_decoder h V4 8 s3 \<and>
           handler_decoder h V4 8 s3 = entry s2 (decoders r) V4 8))))"
  using handler_is_a_snapshot [of cql_protocol empty_store "[]"
      "[AddDecoder V4 8 CustomResultMessageRaw_Codec_decode]"]
  by (auto elim!: returns_mono simp del: register_all.simps)



text \<open>
  Claim C7. Constructing a handler of either test class from the maps of the default registry
  or of the default handler returns, patches a dict that is not the one it was given, and
  leaves every lookup of the default handler and of the registry, and the keys of their
  dicts, as they were before.
\<close>

theorem override_leaves_base_unmodified:
  "returns (protocol_handler P DriverContext_new st) (\<lambda>(base, ctx, s1).
     returns (message_codec_registry P ctx s1) (\<lambda>(r, ctx', s1').
       s1' = s1 \<and>
       (\<forall>ea\<in>{encoders r, handler_encoders base}. \<forall>da\<in>{decoders r, handler_decoders base}.
          returns (CustomTestRawRowType_init P ea da s1) (\<lambda>(custom, s2).
            (\<forall>v oc. handler_decoder base v oc s2 = handler_decoder base v oc s1) \<and>
            (\<forall>v oc. handler_encoder base v oc s2 = handler_encoder base v oc s1) \<and>
            versions_of s2 (handler_decoders base) = versions_of s1 (handler_decoders base) \<and>
            versions_of s2 (handler_encoders base) = versions_of s1 (handler_encoders base) \<and>
            (\<forall>v oc. get_decoder r v oc s2 = get_decoder r v oc s1) \<and>
            (\<forall>v oc. get_encoder r v oc s2 = get_encoder r v oc s1) \<and>
            handler_decoders custom \<noteq> da \<and> handler_decoders custom \<noteq> handler_decoders base) \<and>
          returns (CustomProtocolHandlerResultMessageTracked_init P ea da s1) (\<lambda>(custom, s2).
            (\<forall>v oc. handler_decoder base v oc s2 = handler_decoder base v oc s1) \<and>
            (\<forall>v oc. handler_encoder base v oc s2 = handler_encoder base v oc s1) \<and>
            versions_of s2 (handler_decoders base) = versions_of s1 (handler_decoders base) \<and>
            versions_of s2 (handler_encoders base) = versions_of s1 (handler_encoders base) \<and>
            (\<forall>v oc. get_decoder r v oc s2 = get_decoder r v oc s1) \<and>
            (\<forall>v oc. get_encoder r v oc s2 = get_encoder r v oc s1) \<and>
            handler_decoders custom \<noteq> da \<and> handler_decoders custom \<noteq> handler_decoders base))))"
proof -
  obtain base ctx s r where d:
    "protocol_handler P DriverContext_new st = Inr (base, ctx, s)"
    "message_codec_registry P ctx s = Inr (r, ctx, s)"
    "separate s {encoders r, decoders r, handler_encoders base, handler_decoders base}"
    using default_handler_effect [of P st] by blast
  let ?D = "{encoders r, decoders r, handler_encoders base, handler_decoders base}"
  have key: "returns
     (case deepcopy da s of (d', s1) \<Rightarrow>
        case patch_decoders d' oc f (versions_of s1 d') s1 of
          Inl e \<Rightarrow> Inl e
        | Inr s2 \<Rightarrow> Inr (ProtocolHandler_init ea d' s2))
     (\<lambda>(custom, s2).
        (\<forall>v oc. handler_decoder base v oc s2 = handler_decoder base v oc s) \<and>
        (\<forall>v oc. handler_encoder base v oc s2 = handler_encoder base v oc s) \<and>
        versions_of s2 (handler_decoders base) = versions_of s (handler_decoders base) \<and>
        versions_of s2 (handler_encoders base) = versions_of s (handler_encoders base) \<and>
        (\<forall>v oc. get_decoder r v oc s2 = get_decoder r v oc s) \<and>
        (\<forall>v oc. get_encoder r v oc s2 = get_encoder r v oc s) \<and>
        handler_decoders custom \<noteq> da \<and> handler_decoders custom \<noteq> handler_decoders base)"
    if a: "ea \<in> {encoders r, handler_encoders base}" "da \<in> {decoders r, handler_decoders base}"
    for ea da oc f
  proof -
    have ea: "ea \<in> ?D" and da: "da \<in> ?D" using a by auto
    show ?thesis
      using da
      by (intro returns_mono [OF override_returns [OF d(3) ea da, of oc f]])
        (auto simp: handler_encoder_def handler_decoder_def get_encoder_entry get_decoder_entry)
  qed
  show ?thesis
    using key
    by (simp add: d(1,2) returns_def CustomTestRawRowType_init_def
        CustomProtocolHandlerResultMessageTracked_init_def)
qed

theorem override_leaves_base_unmodified_witness:
  "returns (protocol_handler cql_protocol DriverContext_new empty_store) (\<lambda>(base, ctx, s1).
     returns (message_codec_registry cql_protocol ctx s1) (\<lambda>(r, ctx', s1').
       returns (CustomTestRawRowType_init cql_protocol (handler_encoders base) (handler_decoders base) s1)
         (\<lambda>(custom, s2).
           handler_encoders base \<in> {encoders r, handler_encoders base} \<and>
           handler_decoders base \<in> {decoders r, handler_decoders base} \<and>
           handler_decoder base V4 8 s2 = handler_decoder base V4 8 s1 \<and>
           handler_decoders custom \<noteq> handler_decoders base)))"
  using override_leaves_base_unmodified [of cql_protocol empty_store]
  by (auto elim!: returns_mono)

end
